theory Spec2Isabelle
  imports Main
begin

section \<open>Python values, exceptions and loops\<close>

text \<open>
  The exceptions the three modules can raise: a missing dictionary key, an operation on a
  value of the wrong type (indexing a string with a string, adding \<open>None\<close> or a
  dictionary to a string), a list index out of range (also \<open>pop\<close> on an empty list), and
  an attribute read on \<open>None\<close>.
\<close>

datatype error = KeyError | TypeError | IndexError | AttributeError

text \<open>
  A regular expression is a dictionary \<open>{'key': k, 'val': v}\<close>. The value under \<open>'val'\<close> is
  a string (the token of an atom), another such dictionary (the argument of \<open>*\<close>), or a
  dictionary \<open>{'fst': r1, 'snd': r2}\<close> of two of them. The tag \<open>k\<close> is any string: the
  code compares it with \<open>'atm'\<close>, \<open>'*'\<close>, \<open>'.'\<close> and \<open>'|'\<close>.
\<close>

datatype reg_expr = Node (key: string) (val: pyval)
  and pyval = Str string | Expr reg_expr | FstSnd reg_expr reg_expr

text \<open>A \<open>for\<close> loop over a list that the body does not change; an exception ends it.\<close>

fun for_each :: "('a \<Rightarrow> 's \<Rightarrow> error + 's) \<Rightarrow> 'a list \<Rightarrow> 's \<Rightarrow> error + 's" where
  "for_each f [] s = Inr s"
| "for_each f (x # xs) s = (case f x s of Inl e \<Rightarrow> Inl e | Inr s' \<Rightarrow> for_each f xs s')"

section \<open>regexConversions.py\<close>

subsection \<open>conversion\_reg\_expr\_to\_str\<close>

text \<open>
  Python's \<open>+\<close> on the values this function handles: two strings are concatenated,
  anything else (\<open>None\<close>, a dictionary) raises TypeError. \<open>None\<close> is the value a
  Python function returns when no branch of its \<open>if\<close> chain is taken.
\<close>

fun str_add :: "pyval option \<Rightarrow> pyval option \<Rightarrow> error + pyval option" where
  "str_add (Some (Str a)) (Some (Str b)) = Inr (Some (Str (a @ b)))"
| "str_add _ _ = Inl TypeError"

definition parenthesize :: "pyval option \<Rightarrow> error + pyval option" where
  "parenthesize x =
     (case str_add (Some (Str ''('')) x of
        Inl e \<Rightarrow> Inl e
      | Inr y \<Rightarrow> str_add y (Some (Str '')'')))"

fun conversion_reg_expr_to_str :: "reg_expr \<Rightarrow> error + pyval option" where
  "conversion_reg_expr_to_str (Node k v) =
     (if k = ''atm'' then Inr (Some v)
      else if k = ''*'' then
        (case v of
           Str _ \<Rightarrow> Inl TypeError
         | FstSnd _ _ \<Rightarrow> Inl KeyError
         | Expr r \<Rightarrow>
             if key r = ''atm'' then
               (case conversion_reg_expr_to_str r of
                  Inl e \<Rightarrow> Inl e
                | Inr x \<Rightarrow> str_add x (Some (Str ''*'')))
             else
               (case conversion_reg_expr_to_str r of
                  Inl e \<Rightarrow> Inl e
                | Inr x \<Rightarrow>
                    (case str_add (Some (Str ''('')) x of
                       Inl e \<Rightarrow> Inl e
                     | Inr y \<Rightarrow> str_add y (Some (Str '')*'')))))
      else if k = ''.'' then
        (case v of
           Str _ \<Rightarrow> Inl TypeError
         | Expr _ \<Rightarrow> Inl KeyError
         | FstSnd l r \<Rightarrow>
             (case conversion_reg_expr_to_str l of
                Inl e \<Rightarrow> Inl e
              | Inr fst0 \<Rightarrow>
             (case conversion_reg_expr_to_str r of
                Inl e \<Rightarrow> Inl e
              | Inr snd0 \<Rightarrow>
             (case (if key l = ''|'' then parenthesize fst0 else Inr fst0) of
                Inl e \<Rightarrow> Inl e
              | Inr fst1 \<Rightarrow>
             (case (if key r = ''|'' then parenthesize snd0 else Inr snd0) of
                Inl e \<Rightarrow> Inl e
              | Inr snd1 \<Rightarrow>
             (case str_add fst1 (Some (Str ''.'')) of
                Inl e \<Rightarrow> Inl e
              | Inr t \<Rightarrow> str_add t snd1))))))
      else if k = ''|'' then
        (case v of
           Str _ \<Rightarrow> Inl TypeError
         | Expr _ \<Rightarrow> Inl KeyError
         | FstSnd l r \<Rightarrow>
             (case conversion_reg_expr_to_str l of
                Inl e \<Rightarrow> Inl e
              | Inr a \<Rightarrow>
             (case str_add a (Some (Str ''|'')) of
                Inl e \<Rightarrow> Inl e
              | Inr t \<Rightarrow>
             (case conversion_reg_expr_to_str r of
                Inl e \<Rightarrow> Inl e
              | Inr b \<Rightarrow> str_add t b))))
      else Inr None)"

subsection \<open>conversion\_to\_postfix\_expr\<close>

text \<open>The dictionary \<open>priority_operations\<close>.\<close>

definition priority_operations :: "char \<Rightarrow> nat option" where
  "priority_operations c =
     (if c = CHR ''*'' then Some 1
      else if c = CHR ''.'' then Some 2
      else if c = CHR ''|'' then Some 3
      else if c = CHR ''('' then Some 4
      else if c = CHR '')'' then Some 4
      else None)"

text \<open>
  The state of the scan is the output string and the stack. The stack is a list whose
  head is the top (\<open>stack[-1]\<close>); \<open>pop\<close> and \<open>stack[-1]\<close> on the empty stack raise
  IndexError.

  \<open>pop_until_open\<close> is the loop \<open>while stack[-1] != '(': postfix_reg_expr += stack.pop()\<close>,
  \<open>pop_prioritized c\<close> the loop
  \<open>while len(stack) > 0 and priority_operations[char] > priority_operations[stack[-1]]\<close>.
\<close>

fun pop_until_open :: "string \<Rightarrow> char list \<Rightarrow> error + (string \<times> char list)" where
  "pop_until_open out [] = Inl IndexError"
| "pop_until_open out (t # st) =
     (if t \<noteq> CHR ''('' then pop_until_open (out @ [t]) st else Inr (out, t # st))"

fun pop_prioritized :: "char \<Rightarrow> string \<Rightarrow> char list \<Rightarrow> error + (string \<times> char list)" where
  "pop_prioritized c out [] = Inr (out, [])"
| "pop_prioritized c out (t # st) =
     (case priority_operations c of
        None \<Rightarrow> Inl KeyError
      | Some pc \<Rightarrow>
          (case priority_operations t of
             None \<Rightarrow> Inl KeyError
           | Some pt \<Rightarrow>
               if pc > pt then pop_prioritized c (out @ [t]) st else Inr (out, t # st)))"

definition postfix_step :: "char \<Rightarrow> string \<times> char list \<Rightarrow> error + (string \<times> char list)" where
  "postfix_step c s =
     (case s of (out, stack) \<Rightarrow>
        if c = CHR ''('' then Inr (out, CHR ''('' # stack)
        else if c = CHR '')'' then
          (case pop_until_open out stack of
             Inl e \<Rightarrow> Inl e
           | Inr (out', stack') \<Rightarrow> Inr (out', tl stack'))
        else if c = CHR ''.'' \<or> c = CHR ''|'' then
          (case pop_prioritized c out stack of
             Inl e \<Rightarrow> Inl e
           | Inr (out', stack') \<Rightarrow> Inr (out', c # stack'))
        else if c = CHR ''*'' \<or> c \<noteq> CHR '' '' then Inr (out @ [c], stack)
        else Inr (out, stack))"

definition conversion_to_postfix_expr :: "string \<Rightarrow> error + string" where
  "conversion_to_postfix_expr reg_expr =
     (case for_each postfix_step reg_expr ([], []) of
        Inl e \<Rightarrow> Inl e
      | Inr (out, stack) \<Rightarrow> Inr (out @ stack))"

subsection \<open>conversion\_reg\_expr\_to\_json\<close>

text \<open>The evaluation of the postfix string; the head of the stack is its top.\<close>

definition json_step :: "char \<Rightarrow> reg_expr list \<Rightarrow> error + reg_expr list" where
  "json_step c stack =
     (if c = CHR ''*'' then
        (case stack of
           [] \<Rightarrow> Inl IndexError
         | v # st \<Rightarrow> Inr (Node ''*'' (Expr v) # st))
      else if c = CHR ''.'' \<or> c = CHR ''|'' then
        (case stack of
           second # first # st \<Rightarrow> Inr (Node [c] (FstSnd first second) # st)
         | _ \<Rightarrow> Inl IndexError)
      else Inr (Node ''atm'' (Str [c]) # stack))"

definition conversion_reg_expr_to_json :: "string \<Rightarrow> error + reg_expr" where
  "conversion_reg_expr_to_json reg_expr =
     (case conversion_to_postfix_expr reg_expr of
        Inl e \<Rightarrow> Inl e
      | Inr postfix \<Rightarrow>
          (case for_each json_step postfix [] of
             Inl e \<Rightarrow> Inl e
           | Inr [] \<Rightarrow> Inl IndexError
           | Inr (r # _) \<Rightarrow> Inr r))"

section \<open>EilenbergMachine.py\<close>

text \<open>
  States and state counts are natural numbers. The label of an edge is the value under
  \<open>'val'\<close> of the atom it comes from, whatever that value is; \<open>accept\<close> compares it with
  a one-character string.
\<close>

record EilenbergMachine =
  number_states :: nat
  transitions_between_states :: "(nat \<times> pyval) list list"
  initial_states :: "nat list"
  acceptable_states :: "nat list"

subsection \<open>accept\<close>

text \<open>
  The queue is a list, \<open>q.get()\<close> takes its head and \<open>q.put\<close> appends at its end. The
  loop ends with True at the first queued pair whose string is empty and whose state is
  acceptable, and with False when the queue is empty.
\<close>

function accept_loop :: "EilenbergMachine \<Rightarrow> (nat \<times> string) list \<Rightarrow> error + bool" where
  "accept_loop M [] = Inr False"
| "accept_loop M ((state, []) # q) =
     (if state \<in> set (acceptable_states M) then Inr True else accept_loop M q)"
| "accept_loop M ((state, c # cs) # q) =
     (if state < length (transitions_between_states M) then
        accept_loop M
          (q @ map (\<lambda>edge. (fst edge, cs))
                 (filter (\<lambda>edge. snd edge = Str [c]) (transitions_between_states M ! state)))
      else Inl IndexError)"
  by pat_completeness auto

text \<open>
  Every pair taken from the queue is replaced by pairs with a shorter string, at most as
  many as the longest adjacency list has edges: the weighted size of the queue decreases.
\<close>

definition width :: "EilenbergMachine \<Rightarrow> nat" where
  "width M = Suc (Max (insert 0 (length ` set (transitions_between_states M))))"

definition weight :: "EilenbergMachine \<Rightarrow> (nat \<times> string) list \<Rightarrow> nat" where
  "weight M q = sum_list (map (\<lambda>p. width M ^ length (snd p)) q)"

lemma row_length_less_width:
  "i < length (transitions_between_states M) \<Longrightarrow>
   length (transitions_between_states M ! i) < width M"
proof -
  assume "i < length (transitions_between_states M)"
  then have "length (transitions_between_states M ! i)
      \<in> insert 0 (length ` set (transitions_between_states M))"
    by simp
  then have "length (transitions_between_states M ! i)
      \<le> Max (insert 0 (length ` set (transitions_between_states M)))"
    by (intro Max_ge) auto
  then show ?thesis by (simp add: width_def)
qed

lemma weight_successors:
  "weight M (map (\<lambda>edge. (fst edge, cs)) es) = length es * width M ^ length cs"
  by (induction es) (simp_all add: weight_def)

lemma weight_append: "weight M (q @ r) = weight M q + weight M r"
  by (simp add: weight_def)

lemma weight_Cons: "weight M (p # q) = width M ^ length (snd p) + weight M q"
  by (simp add: weight_def)

termination accept_loop
proof (relation "measure (\<lambda>(M, q). weight M q)", goal_cases)
  case 1
  show ?case by simp
next
  case (2 M state q)
  show ?case by (simp add: weight_Cons width_def)
next
  case (3 M state c cs q)
  let ?es = "filter (\<lambda>edge. snd edge = Str [c]) (transitions_between_states M ! state)"
  have "length ?es \<le> length (transitions_between_states M ! state)"
    by simp
  also have "\<dots> < width M"
    using 3 by (rule row_length_less_width)
  finally have lt: "length ?es < width M" .
  have pos: "0 < width M ^ length cs"
    by (simp add: width_def)
  from lt pos have "length ?es * width M ^ length cs < width M * width M ^ length cs"
    by simp
  then show ?case
    by (simp add: weight_append weight_successors weight_Cons)
qed

definition accept :: "EilenbergMachine \<Rightarrow> string \<Rightarrow> error + bool" where
  "accept M expr = accept_loop M (map (\<lambda>state. (state, expr)) (initial_states M))"

subsection \<open>The star of a machine\<close>

text \<open>
  The inner loop of \<open>_build_Eilenberg_machine_oper_asterisk\<close> runs over the adjacency list
  of state \<open>s\<close> while it appends to that same list, so it also visits the edges it has
  added: \<open>j\<close> is the position of the list iterator, compared with the current length at
  every step. When an initial state is acceptable the added edges add edges again and the
  loop never ends; that is the value None.
\<close>

partial_function (option) asterisk_row ::
  "nat list \<Rightarrow> nat list \<Rightarrow> (nat \<times> pyval) list \<Rightarrow> nat \<Rightarrow> (nat \<times> pyval) list option" where
  "asterisk_row acc inits row j =
     (if j < length row then
        (if fst (row ! j) \<in> set acc then
           asterisk_row acc inits (row @ map (\<lambda>init_state. (init_state, snd (row ! j))) inits) (Suc j)
         else asterisk_row acc inits row (Suc j))
      else Some row)"

declare asterisk_row.simps [code]

fun asterisk_rows ::
  "nat list \<Rightarrow> nat list \<Rightarrow> nat list \<Rightarrow> (nat \<times> pyval) list list \<Rightarrow>
   (error + (nat \<times> pyval) list list) option" where
  "asterisk_rows acc inits [] tr = Some (Inr tr)"
| "asterisk_rows acc inits (s # ss) tr =
     (if s < length tr then
        (case asterisk_row acc inits (tr ! s) 0 of
           None \<Rightarrow> None
         | Some row \<Rightarrow> asterisk_rows acc inits ss (tr[s := row]))
      else Some (Inl IndexError))"

definition asterisk_machine :: "EilenbergMachine \<Rightarrow> (error + EilenbergMachine) option" where
  "asterisk_machine e_machine =
     (case asterisk_rows (acceptable_states e_machine) (initial_states e_machine)
             [0..<number_states e_machine] (transitions_between_states e_machine) of
        None \<Rightarrow> None
      | Some (Inl e) \<Rightarrow> Some (Inl e)
      | Some (Inr tr) \<Rightarrow> Some (Inr (e_machine\<lparr>transitions_between_states := tr\<rparr>)))"

subsection \<open>The concatenation of two machines\<close>

text \<open>
  The dictionary \<open>new_state_numbers\<close>: the states of the second machine that are not
  initial, numbered in ascending order from \<open>start\<close>.
\<close>

definition new_state_numbers :: "nat list \<Rightarrow> nat \<Rightarrow> nat \<Rightarrow> (nat \<rightharpoonup> nat)" where
  "new_state_numbers inits n start =
     fst (fold (\<lambda>s (d, new_number).
                  if s \<notin> set inits then (d(s \<mapsto> new_number), Suc new_number)
                  else (d, new_number))
            [0..<n] (Map.empty, start))"

text \<open>
  \<open>tr[i].append(x)\<close>: the list is indexed first (IndexError), then the argument is
  evaluated (it may raise), then the element is appended.
\<close>

definition append_at :: "'a list list \<Rightarrow> nat \<Rightarrow> error + 'a \<Rightarrow> error + 'a list list" where
  "append_at tr i arg =
     (if i < length tr then
        (case arg of Inl e \<Rightarrow> Inl e | Inr x \<Rightarrow> Inr (tr[i := tr ! i @ [x]]))
      else Inl IndexError)"

definition lookup :: "('k \<rightharpoonup> 'v) \<Rightarrow> 'k \<Rightarrow> error + 'v" where
  "lookup d k = (case d k of None \<Rightarrow> Inl KeyError | Some v \<Rightarrow> Inr v)"

text \<open>
  What the loop body does with one edge \<open>(state, character)\<close> of state \<open>s\<close> of the
  second machine. In \<open>concat_machines\<close> below the state count and the number of added
  adjacency lists are natural numbers: the subtraction of \<open>len(machine_snd.initial_states)\<close>
  stops at 0. Python's \<open>range\<close> of a negative number is empty as well; the stored count
  would be negative only for a second machine with more initial states than both
  machines have states.
\<close>

definition concat_edge ::
  "nat list \<Rightarrow> nat list \<Rightarrow> (nat \<rightharpoonup> nat) \<Rightarrow> nat \<Rightarrow> nat \<times> pyval \<Rightarrow>
   (nat \<times> pyval) list list \<Rightarrow> error + (nat \<times> pyval) list list" where
  "concat_edge fst_acceptable snd_initial d s edge tr =
     (case edge of (state, character) \<Rightarrow>
        if s \<in> set snd_initial \<and> state \<notin> set snd_initial then
          for_each (\<lambda>act_s tr.
              append_at tr act_s
                (case lookup d state of Inl e \<Rightarrow> Inl e | Inr k \<Rightarrow> Inr (k, character)))
            fst_acceptable tr
        else if s \<in> set snd_initial \<and> state \<in> set snd_initial then
          for_each (\<lambda>act_s tr. append_at tr act_s (Inr (act_s, character)))
            fst_acceptable tr
        else if s \<notin> set snd_initial \<and> state \<in> set snd_initial then
          for_each (\<lambda>act_s tr.
              case lookup d s of
                Inl e \<Rightarrow> Inl e
              | Inr k \<Rightarrow> append_at tr k (Inr (act_s, character)))
            fst_acceptable tr
        else if s \<notin> set snd_initial \<and> state \<notin> set snd_initial then
          (case lookup d s of
             Inl e \<Rightarrow> Inl e
           | Inr k \<Rightarrow>
               append_at tr k
                 (case lookup d state of Inl e \<Rightarrow> Inl e | Inr k' \<Rightarrow> Inr (k', character)))
        else Inr tr)"

definition concat_machines :: "EilenbergMachine \<Rightarrow> EilenbergMachine \<Rightarrow> error + EilenbergMachine" where
  "concat_machines machine_fst machine_snd =
     (let d = new_state_numbers (initial_states machine_snd) (number_states machine_snd)
                (number_states machine_fst);
          tr0 = transitions_between_states machine_fst
                @ replicate (number_states machine_snd - length (initial_states machine_snd)) []
      in case for_each (\<lambda>s tr.
                  if s < length (transitions_between_states machine_snd) then
                    for_each
                      (concat_edge (acceptable_states machine_fst) (initial_states machine_snd) d s)
                      (transitions_between_states machine_snd ! s) tr
                  else Inl IndexError)
                [0..<number_states machine_snd] tr0 of
           Inl e \<Rightarrow> Inl e
         | Inr tr \<Rightarrow>
             (case for_each (\<lambda>s acc. case lookup d s of Inl e \<Rightarrow> Inl e | Inr k \<Rightarrow> Inr (acc @ [k]))
                     (acceptable_states machine_snd) [] of
                Inl e \<Rightarrow> Inl e
              | Inr acc \<Rightarrow>
                  Inr \<lparr>number_states =
                         number_states machine_fst + number_states machine_snd
                           - length (initial_states machine_snd),
                       transitions_between_states = tr,
                       initial_states = initial_states machine_fst,
                       acceptable_states = acc\<rparr>))"

subsection \<open>The union of two machines\<close>

definition or_machines :: "EilenbergMachine \<Rightarrow> EilenbergMachine \<Rightarrow> error + EilenbergMachine" where
  "or_machines machine_fst machine_snd =
     (let n1 = number_states machine_fst;
          tr0 = transitions_between_states machine_fst
                @ replicate (number_states machine_snd) []
      in case for_each (\<lambda>s tr.
                  if s < length (transitions_between_states machine_snd) then
                    for_each (\<lambda>edge tr. append_at tr (s + n1) (Inr (fst edge + n1, snd edge)))
                      (transitions_between_states machine_snd ! s) tr
                  else Inl IndexError)
                [0..<number_states machine_snd] tr0 of
           Inl e \<Rightarrow> Inl e
         | Inr tr \<Rightarrow>
             Inr \<lparr>number_states = n1 + number_states machine_snd,
                  transitions_between_states = tr,
                  initial_states =
                    initial_states machine_fst @ map (\<lambda>s. s + n1) (initial_states machine_snd),
                  acceptable_states =
                    acceptable_states machine_fst
                    @ map (\<lambda>s. s + n1) (acceptable_states machine_snd)\<rparr>)"

subsection \<open>get\_Eilenberg\_machine\<close>

text \<open>
  The result is None when a loop of the construction never ends, \<open>Some (Inl e)\<close> when
  it raises \<open>e\<close>, \<open>Some (Inr None)\<close> when the function returns Python's \<open>None\<close> (no branch
  of the \<open>if\<close> chain taken) and \<open>Some (Inr (Some M))\<close> when it returns the machine \<open>M\<close>.
  The three builders call \<open>get_Eilenberg_machine\<close> on their arguments first, the left one
  before the right one, and read \<open>number_states\<close> of the results afterwards, which is an
  AttributeError on \<open>None\<close>.
\<close>

fun get_Eilenberg_machine :: "reg_expr \<Rightarrow> (error + EilenbergMachine option) option" where
  "get_Eilenberg_machine (Node k v) =
     (if k = ''atm'' then
        Some (Inr (Some \<lparr>number_states = 2,
                         transitions_between_states = [[(1, v)], []],
                         initial_states = [0],
                         acceptable_states = [1]\<rparr>))
      else if k = ''*'' then
        (case v of
           Str _ \<Rightarrow> Some (Inl TypeError)
         | FstSnd _ _ \<Rightarrow> Some (Inl KeyError)
         | Expr r \<Rightarrow>
             (case get_Eilenberg_machine r of
                None \<Rightarrow> None
              | Some (Inl e) \<Rightarrow> Some (Inl e)
              | Some (Inr None) \<Rightarrow> Some (Inl AttributeError)
              | Some (Inr (Some e_machine)) \<Rightarrow>
                  (case asterisk_machine e_machine of
                     None \<Rightarrow> None
                   | Some (Inl e) \<Rightarrow> Some (Inl e)
                   | Some (Inr m) \<Rightarrow> Some (Inr (Some m)))))
      else if k = ''.'' then
        (case v of
           Str _ \<Rightarrow> Some (Inl TypeError)
         | Expr _ \<Rightarrow> Some (Inl KeyError)
         | FstSnd l r \<Rightarrow>
             (case get_Eilenberg_machine l of
                None \<Rightarrow> None
              | Some (Inl e) \<Rightarrow> Some (Inl e)
              | Some (Inr machine_fst) \<Rightarrow>
             (case get_Eilenberg_machine r of
                None \<Rightarrow> None
              | Some (Inl e) \<Rightarrow> Some (Inl e)
              | Some (Inr machine_snd) \<Rightarrow>
             (case (machine_fst, machine_snd) of
                (Some m1, Some m2) \<Rightarrow>
                  (case concat_machines m1 m2 of
                     Inl e \<Rightarrow> Some (Inl e)
                   | Inr m \<Rightarrow> Some (Inr (Some m)))
              | _ \<Rightarrow> Some (Inl AttributeError)))))
      else if k = ''|'' then
        (case v of
           Str _ \<Rightarrow> Some (Inl TypeError)
         | Expr _ \<Rightarrow> Some (Inl KeyError)
         | FstSnd l r \<Rightarrow>
             (case get_Eilenberg_machine l of
                None \<Rightarrow> None
              | Some (Inl e) \<Rightarrow> Some (Inl e)
              | Some (Inr machine_fst) \<Rightarrow>
             (case get_Eilenberg_machine r of
                None \<Rightarrow> None
              | Some (Inl e) \<Rightarrow> Some (Inl e)
              | Some (Inr machine_snd) \<Rightarrow>
             (case (machine_fst, machine_snd) of
                (Some m1, Some m2) \<Rightarrow>
                  (case or_machines m1 m2 of
                     Inl e \<Rightarrow> Some (Inl e)
                   | Inr m \<Rightarrow> Some (Inr (Some m)))
              | _ \<Rightarrow> Some (Inl AttributeError)))))
      else Some (Inr None))"

text \<open>
  The three builders under their own names (without the leading underscore): each builds
  the machines of its arguments and combines them. \<open>get_Eilenberg_machine\<close> above has
  their bodies in its branches, because the four functions call each other.
\<close>

definition build_Eilenberg_machine_oper_asterisk ::
  "reg_expr \<Rightarrow> (error + EilenbergMachine) option" where
  "build_Eilenberg_machine_oper_asterisk reg_expr =
     (case get_Eilenberg_machine reg_expr of
        None \<Rightarrow> None
      | Some (Inl e) \<Rightarrow> Some (Inl e)
      | Some (Inr None) \<Rightarrow> Some (Inl AttributeError)
      | Some (Inr (Some e_machine)) \<Rightarrow> asterisk_machine e_machine)"

definition build_Eilenberg_machine_oper_concat ::
  "reg_expr \<Rightarrow> reg_expr \<Rightarrow> (error + EilenbergMachine) option" where
  "build_Eilenberg_machine_oper_concat reg_expr_left reg_expr_right =
     (case get_Eilenberg_machine reg_expr_left of
        None \<Rightarrow> None
      | Some (Inl e) \<Rightarrow> Some (Inl e)
      | Some (Inr machine_fst) \<Rightarrow>
     (case get_Eilenberg_machine reg_expr_right of
        None \<Rightarrow> None
      | Some (Inl e) \<Rightarrow> Some (Inl e)
      | Some (Inr machine_snd) \<Rightarrow>
     (case (machine_fst, machine_snd) of
        (Some m1, Some m2) \<Rightarrow> Some (concat_machines m1 m2)
      | _ \<Rightarrow> Some (Inl AttributeError))))"

definition build_Eilenberg_machine_oper_or ::
  "reg_expr \<Rightarrow> reg_expr \<Rightarrow> (error + EilenbergMachine) option" where
  "build_Eilenberg_machine_oper_or reg_expr_left reg_expr_right =
     (case get_Eilenberg_machine reg_expr_left of
        None \<Rightarrow> None
      | Some (Inl e) \<Rightarrow> Some (Inl e)
      | Some (Inr machine_fst) \<Rightarrow>
     (case get_Eilenberg_machine reg_expr_right of
        None \<Rightarrow> None
      | Some (Inl e) \<Rightarrow> Some (Inl e)
      | Some (Inr machine_snd) \<Rightarrow>
     (case (machine_fst, machine_snd) of
        (Some m1, Some m2) \<Rightarrow> Some (or_machines m1 m2)
      | _ \<Rightarrow> Some (Inl AttributeError))))"

lemma get_Eilenberg_machine_asterisk:
  "get_Eilenberg_machine (Node ''*'' (Expr r))
   = map_option (map_sum id Some) (build_Eilenberg_machine_oper_asterisk r)"
  by (simp add: build_Eilenberg_machine_oper_asterisk_def split: option.splits sum.splits)

lemma get_Eilenberg_machine_concat:
  "get_Eilenberg_machine (Node ''.'' (FstSnd l r))
   = map_option (map_sum id Some) (build_Eilenberg_machine_oper_concat l r)"
  by (simp add: build_Eilenberg_machine_oper_concat_def split: option.splits sum.splits)

lemma get_Eilenberg_machine_or:
  "get_Eilenberg_machine (Node ''|'' (FstSnd l r))
   = map_option (map_sum id Some) (build_Eilenberg_machine_oper_or l r)"
  by (simp add: build_Eilenberg_machine_oper_or_def split: option.splits sum.splits)

section \<open>DFSM.py\<close>

text \<open>
  The fields of the class; three of them carry the prefix \<open>dfsm_\<close> because the machine
  of EilenbergMachine.py has fields of the same names. States and the state count are
  natural numbers, the alphabet symbols are of any type with equality.
\<close>

record 'a DFSM =
  alphabet :: "'a list"
  dfsm_number_states :: nat
  dfsm_transitions_between_states :: "(nat \<times> 'a) list list"
  initial_state :: nat
  dfsm_acceptable_states :: "nat list"

subsection \<open>\_transition\<close>

text \<open>The first edge of the state with the symbol gives the target; \<open>-1\<close> when there is none.\<close>

fun transition_row :: "(nat \<times> 'a) list \<Rightarrow> 'a \<Rightarrow> int" where
  "transition_row [] char = - 1"
| "transition_row ((s, c) # es) char = (if c = char then int s else transition_row es char)"

definition transition :: "'a DFSM \<Rightarrow> nat \<Rightarrow> 'a \<Rightarrow> error + int" where
  "transition D state char =
     (if state < length (dfsm_transitions_between_states D)
      then Inr (transition_row (dfsm_transitions_between_states D ! state) char)
      else Inl IndexError)"

subsection \<open>eliminate\_unreachable\_states\<close>

text \<open>
  The breadth-first search: \<open>used\<close> is the list of flags, the queue a list whose head
  is taken by \<open>q.get()\<close>. \<open>visit_edge\<close> is the body of the loop over the edges of the
  state taken from the queue.
\<close>

definition visit_edge :: "nat \<times> 'a \<Rightarrow> bool list \<times> nat list \<Rightarrow> error + (bool list \<times> nat list)" where
  "visit_edge edge st =
     (case st of (used, q) \<Rightarrow>
        if fst edge < length used then
          (if \<not> used ! fst edge then Inr (used[fst edge := True], q @ [fst edge])
           else Inr (used, q))
        else Inl IndexError)"

definition unmarked :: "bool list \<Rightarrow> nat" where
  "unmarked used = length (filter (\<lambda>b. \<not> b) used)"

lemma unmarked_update:
  "i < length used \<Longrightarrow> \<not> used ! i \<Longrightarrow> Suc (unmarked (used[i := True])) = unmarked used"
proof (induction used arbitrary: i)
  case Nil
  then show ?case by simp
next
  case (Cons b used)
  then show ?case by (cases i) (auto simp: unmarked_def)
qed

lemma visit_edge_measure:
  "visit_edge edge (used, q) = Inr (used', q') \<Longrightarrow>
   unmarked used' + length q' = unmarked used + length q"
  using unmarked_update[of "fst edge" used]
  by (auto simp: visit_edge_def split: if_splits)

lemma visit_edges_measure:
  "for_each visit_edge es (used, q) = Inr (used', q') \<Longrightarrow>
   unmarked used' + length q' = unmarked used + length q"
proof (induction es arbitrary: used q)
  case Nil
  then show ?case by simp
next
  case (Cons edge es)
  from Cons.prems obtain used1 q1 where
    1: "visit_edge edge (used, q) = Inr (used1, q1)" and
    2: "for_each visit_edge es (used1, q1) = Inr (used', q')"
    by (auto split: sum.splits)
  from Cons.IH[OF 2] visit_edge_measure[OF 1] show ?case by simp
qed

function bfs_loop :: "(nat \<times> 'a) list list \<Rightarrow> bool list \<Rightarrow> nat list \<Rightarrow> error + bool list" where
  "bfs_loop tr used [] = Inr used"
| "bfs_loop tr used (state # q) =
     (if state < length tr then
        (case for_each visit_edge (tr ! state) (used, q) of
           Inl e \<Rightarrow> Inl e
         | Inr (used', q') \<Rightarrow> bfs_loop tr used' q')
      else Inl IndexError)"
  by pat_completeness auto
termination
proof (relation "measure (\<lambda>(tr, used, q). unmarked used + length q)", goal_cases)
  case 1
  show ?case by simp
next
  case (2 tr used state q x used' q')
  then have "for_each visit_edge (tr ! state) (used, q) = Inr (used', q')"
    by simp
  from visit_edges_measure[OF this] show ?case by simp
qed

text \<open>
  The dictionary \<open>new_state_numbers\<close> of the marked states, in ascending order, with the
  number of marked states.
\<close>

definition used_numbers :: "bool list \<Rightarrow> nat \<Rightarrow> (nat \<rightharpoonup> nat) \<times> nat" where
  "used_numbers used n =
     fold (\<lambda>s (d, new_number).
             if used ! s then (d(s \<mapsto> new_number), Suc new_number) else (d, new_number))
       [0..<n] (Map.empty, 0)"

definition keep_edge ::
  "bool list \<Rightarrow> (nat \<rightharpoonup> nat) \<Rightarrow> nat \<Rightarrow> nat \<times> 'a \<Rightarrow> (nat \<times> 'a) list list \<Rightarrow>
   error + (nat \<times> 'a) list list" where
  "keep_edge used d s edge ntr =
     (if fst edge < length used then
        (if used ! fst edge then
           (case lookup d s of
              Inl e \<Rightarrow> Inl e
            | Inr k \<Rightarrow>
                append_at ntr k
                  (case lookup d (fst edge) of Inl e \<Rightarrow> Inl e | Inr k' \<Rightarrow> Inr (k', snd edge)))
         else Inr ntr)
      else Inl IndexError)"

definition keep_acceptable ::
  "bool list \<Rightarrow> (nat \<rightharpoonup> nat) \<Rightarrow> nat \<Rightarrow> nat list \<Rightarrow> error + nat list" where
  "keep_acceptable used d s acc =
     (if s < length used then
        (if used ! s then
           (case lookup d s of Inl e \<Rightarrow> Inl e | Inr k \<Rightarrow> Inr (acc @ [k]))
         else Inr acc)
      else Inl IndexError)"

definition eliminate_unreachable_states :: "'a DFSM \<Rightarrow> error + 'a DFSM" where
  "eliminate_unreachable_states D =
     (let n = dfsm_number_states D; tr = dfsm_transitions_between_states D in
      if initial_state D < n then
        (case bfs_loop tr ((replicate n False)[initial_state D := True]) [initial_state D] of
           Inl e \<Rightarrow> Inl e
         | Inr used \<Rightarrow>
             (case used_numbers used n of (d, new_number) \<Rightarrow>
             (case for_each (\<lambda>s ntr.
                       if used ! s then
                         (if s < length tr then for_each (keep_edge used d s) (tr ! s) ntr
                          else Inl IndexError)
                       else Inr ntr)
                     [0..<n] (replicate new_number []) of
                Inl e \<Rightarrow> Inl e
              | Inr ntr \<Rightarrow>
             (case lookup d (initial_state D) of
                Inl e \<Rightarrow> Inl e
              | Inr ini \<Rightarrow>
             (case for_each (keep_acceptable used d) (dfsm_acceptable_states D) [] of
                Inl e \<Rightarrow> Inl e
              | Inr acc \<Rightarrow>
                  Inr \<lparr>alphabet = alphabet D,
                       dfsm_number_states = new_number,
                       dfsm_transitions_between_states = ntr,
                       initial_state = ini,
                       dfsm_acceptable_states = acc\<rparr>)))))
      else Inl IndexError)"

subsection \<open>reduce\_dfsm\<close>

text \<open>
  \<open>split_class\<close> is the loop over the states of one class \<open>s\<close>: the states whose
  transition lands in \<open>set_states\<close> go to \<open>set_fst\<close>, the others (also those without a
  transition) to \<open>set_snd\<close>.

  \<open>refine_classes\<close> is the loop \<open>for s in classes\<close>, whose body removes from and appends
  to \<open>classes\<close>: \<open>i\<close> is the position of the list iterator, which moves on by one at
  every step whatever the body did to the list, and is compared with the current length.

  \<open>reduce_loop\<close> is the loop over the queue of tasks.
\<close>

definition split_state ::
  "'a DFSM \<Rightarrow> nat list \<Rightarrow> 'a \<Rightarrow> nat \<Rightarrow> nat list \<times> nat list \<Rightarrow> error + (nat list \<times> nat list)" where
  "split_state D set_states char state halves =
     (case halves of (set_fst, set_snd) \<Rightarrow>
        (case transition D state char of
           Inl e \<Rightarrow> Inl e
         | Inr to_state \<Rightarrow>
             if to_state = - 1 \<or> to_state \<notin> set (map int set_states)
             then Inr (set_fst, set_snd @ [state])
             else Inr (set_fst @ [state], set_snd)))"

definition split_class ::
  "'a DFSM \<Rightarrow> nat list \<Rightarrow> 'a \<Rightarrow> nat list \<Rightarrow> error + (nat list \<times> nat list)" where
  "split_class D set_states char s = for_each (split_state D set_states char) s ([], [])"

definition enqueue_halves :: "'a list \<Rightarrow> nat list \<Rightarrow> nat list \<Rightarrow> (nat list \<times> 'a) list" where
  "enqueue_halves alph set_fst set_snd = concat (map (\<lambda>c. [(set_fst, c), (set_snd, c)]) alph)"

function refine_classes ::
  "'a DFSM \<Rightarrow> nat list \<Rightarrow> 'a \<Rightarrow> nat \<Rightarrow> nat list list \<Rightarrow> (nat list \<times> 'a) list \<Rightarrow>
   error + (nat list list \<times> (nat list \<times> 'a) list)" where
  "refine_classes D set_states char i classes q =
     (if i < length classes then
        (case split_class D set_states char (classes ! i) of
           Inl e \<Rightarrow> Inl e
         | Inr (set_fst, set_snd) \<Rightarrow>
             if set_fst \<noteq> [] \<and> set_snd \<noteq> [] then
               refine_classes D set_states char (Suc i)
                 (remove1 (classes ! i) classes @ [set_fst, set_snd])
                 (q @ enqueue_halves (alphabet D) set_fst set_snd)
             else refine_classes D set_states char (Suc i) classes q)
      else Inr (classes, q))"
  by pat_completeness auto

text \<open>
  Termination: a split replaces a class by two shorter non-empty ones, which lowers the
  sum of \<open>2 * length c - 1\<close> over the classes by one.
\<close>

definition phi :: "nat list \<Rightarrow> nat" where "phi c = 2 * length c - 1"
definition potential :: "nat list list \<Rightarrow> nat" where "potential cs = sum_list (map phi cs)"

lemma split_state_length:
  "split_state D S c x (f, s) = Inr (f', s') \<Longrightarrow> length f' + length s' = Suc (length f + length s)"
  by (auto simp: split_state_def split: sum.splits if_splits)

lemma for_each_split_length:
  "for_each (split_state D S c) xs (f, s) = Inr (f', s') \<Longrightarrow>
   length f' + length s' = length xs + length f + length s"
proof (induction xs arbitrary: f s)
  case Nil then show ?case by simp
next
  case (Cons x xs)
  from Cons.prems obtain f1 s1 where 1: "split_state D S c x (f, s) = Inr (f1, s1)"
    and 2: "for_each (split_state D S c) xs (f1, s1) = Inr (f', s')"
    by (auto split: sum.splits)
  from Cons.IH[OF 2] split_state_length[OF 1] show ?case by simp
qed

lemma split_class_length:
  "split_class D S c xs = Inr (f, s) \<Longrightarrow> length f + length s = length xs"
  using for_each_split_length[of D S c xs "[]" "[]" f s] by (simp add: split_class_def)

lemma phi_split:
  "f \<noteq> [] \<Longrightarrow> s \<noteq> [] \<Longrightarrow> length f + length s = length c \<Longrightarrow> Suc (phi f + phi s) = phi c"
  by (cases f; cases s) (auto simp: phi_def)

lemma drop_remove1_nth:
  "i < length xs \<Longrightarrow> drop i (remove1 (xs ! i) xs) = drop (Suc i) xs"
proof (induction xs arbitrary: i)
  case Nil then show ?case by simp
next
  case (Cons x xs)
  show ?case
  proof (cases i)
    case 0 then show ?thesis by simp
  next
    case (Suc j)
    with Cons.prems have j: "j < length xs" by simp
    show ?thesis
    proof (cases "x = xs ! j")
      case True
      then show ?thesis using Suc j by (simp add: Cons_nth_drop_Suc)
    next
      case False
      then show ?thesis using Suc j Cons.IH[OF j] by simp
    qed
  qed
qed

lemma potential_drop_Suc: "potential (drop (Suc i) xs) \<le> potential (drop i xs)"
proof (cases "i < length xs")
  case True
  then show ?thesis by (simp add: potential_def flip: Cons_nth_drop_Suc)
next
  case False then show ?thesis by simp
qed

termination refine_classes
proof (relation "measure (\<lambda>(D, S, c, i, classes, q). potential (drop i classes) + (length classes - i))", goal_cases)
  case 1 show ?case by simp
next
  case (2 D S c i classes q x f s)
  let ?R = "remove1 (classes ! i) classes"
  from 2 have len: "length f + length s = length (classes ! i)"
    by (auto dest: split_class_length)
  have lR: "length ?R = length classes - 1"
    using 2 by (simp add: length_remove1)
  have "drop (Suc i) (?R @ [f, s]) = drop (Suc i) ?R @ drop (Suc i - length ?R) [f, s]"
    by simp
  have d1: "drop (Suc i) ?R = drop (Suc (Suc i)) classes"
    using drop_remove1_nth[OF 2(1)] by (metis drop_drop plus_1_eq_Suc)
  have "potential (drop (Suc i) (?R @ [f, s])) \<le> potential (drop (Suc i) ?R) + phi f + phi s"
    by (cases "Suc i - length ?R") (auto simp: potential_def  drop_Cons split: nat.splits)
  also have "\<dots> \<le> potential (drop (Suc i) classes) + phi f + phi s"
    using potential_drop_Suc[of "Suc i" classes] by (simp add: d1)
  also have "\<dots> < potential (drop (Suc i) classes) + phi (classes ! i)"
    using phi_split[OF _ _ len] 2 by simp
  also have "\<dots> = potential (drop i classes)"
    using 2(1) by (simp add: potential_def flip: Cons_nth_drop_Suc)
  finally show ?case using 2(1) lR by simp
next
  case (3 D S c i classes q x f s)
  then show ?case using potential_drop_Suc[of i classes] by simp
qed


declare refine_classes.simps [simp del]

lemma potential_append: "potential (xs @ ys) = potential xs + potential ys"
  by (simp add: potential_def)

lemma potential_remove1:
  "x \<in> set xs \<Longrightarrow> potential (remove1 x xs) + phi x = potential xs"
  by (induction xs) (auto simp: potential_def)

lemma length_enqueue_halves: "length (enqueue_halves alph f s) = 2 * length alph"
  by (induction alph) (simp_all add: enqueue_halves_def)

lemma refine_classes_measure:
  "refine_classes D S c i classes q = Inr (classes', q') \<Longrightarrow>
   length q' + (2 * length (alphabet D)) * potential classes'
     \<le> length q + (2 * length (alphabet D)) * potential classes"
proof (induction D S c i classes q rule: refine_classes.induct)
  case (1 D S c i classes q)
  show ?case
  proof (cases "i < length classes")
    case False
    with "1.prems" show ?thesis by (simp add: refine_classes.simps)
  next
    case True
    with "1.prems" obtain f s where sp: "split_class D S c (classes ! i) = Inr (f, s)"
      by (subst (asm) refine_classes.simps) (auto split: sum.splits)
    show ?thesis
    proof (cases "f \<noteq> [] \<and> s \<noteq> []")
      case False
      with "1.prems" True sp have
        "refine_classes D S c (Suc i) classes q = Inr (classes', q')"
        by (subst (asm) refine_classes.simps) auto
      from "1.IH"(2)[OF True sp refl False this] show ?thesis .
    next
      case nonempty: True
      let ?cl = "remove1 (classes ! i) classes @ [f, s]"
      let ?q = "q @ enqueue_halves (alphabet D) f s"
      from "1.prems" True sp nonempty have
        "refine_classes D S c (Suc i) ?cl ?q = Inr (classes', q')"
        by (subst (asm) refine_classes.simps) auto
      from "1.IH"(1)[OF True sp refl nonempty this]
      have le: "length q' + 2 * length (alphabet D) * potential classes'
          \<le> length ?q + 2 * length (alphabet D) * potential ?cl" .
      have len: "length f + length s = length (classes ! i)"
        using sp by (rule split_class_length)
      have "potential ?cl + 1 = potential classes"
        using potential_remove1[of "classes ! i" classes] True
          phi_split[OF _ _ len] nonempty
        by (simp add: potential_append potential_def)
      then have "potential classes = Suc (potential ?cl)" by simp
      then show ?thesis using le by (simp add: length_enqueue_halves)
    qed
  qed
qed

function reduce_loop ::
  "'a DFSM \<Rightarrow> nat list list \<Rightarrow> (nat list \<times> 'a) list \<Rightarrow> error + nat list list" where
  "reduce_loop D classes [] = Inr classes"
| "reduce_loop D classes ((set_states, char) # q) =
     (case refine_classes D set_states char 0 classes q of
        Inl e \<Rightarrow> Inl e
      | Inr (classes', q') \<Rightarrow> reduce_loop D classes' q')"
  by pat_completeness auto
termination
proof (relation "measure (\<lambda>(D, classes, q). length q + (2 * length (alphabet D)) * potential classes)", goal_cases)
  case 1 show ?case by simp
next
  case (2 D classes S c q x classes' q')
  then have "refine_classes D S c 0 classes q = Inr (classes', q')" by simp
  from refine_classes_measure[OF this] show ?case by simp
qed

text \<open>
  The dictionary \<open>new_state_numbers\<close> of \<open>reduce_dfsm\<close>: every state of a class gets the
  position of the class in the list, a later class overwriting an earlier one; with the
  number of classes.
\<close>

definition class_numbers :: "nat list list \<Rightarrow> (nat \<rightharpoonup> nat) \<times> nat" where
  "class_numbers classes =
     fold (\<lambda>s (d, new_number). (fold (\<lambda>state d. d(state \<mapsto> new_number)) s d, Suc new_number))
       classes (Map.empty, 0)"

definition merge_edge ::
  "(nat \<rightharpoonup> nat) \<Rightarrow> nat \<Rightarrow> nat \<times> 'a \<Rightarrow> (nat \<times> 'a) list list \<Rightarrow> error + (nat \<times> 'a) list list" where
  "merge_edge d s edge ntr =
     (case lookup d s of
        Inl e \<Rightarrow> Inl e
      | Inr k \<Rightarrow>
          if k < length ntr then
            (case lookup d (fst edge) of
               Inl e \<Rightarrow> Inl e
             | Inr k' \<Rightarrow>
                 if (k', snd edge) \<notin> set (ntr ! k)
                 then Inr (ntr[k := ntr ! k @ [(k', snd edge)]])
                 else Inr ntr)
          else Inl IndexError)"

definition merge_acceptable :: "(nat \<rightharpoonup> nat) \<Rightarrow> nat \<Rightarrow> nat list \<Rightarrow> error + nat list" where
  "merge_acceptable d s acc =
     (case lookup d s of
        Inl e \<Rightarrow> Inl e
      | Inr k \<Rightarrow> if k \<notin> set acc then Inr (acc @ [k]) else Inr acc)"

definition reduce_dfsm :: "'a DFSM \<Rightarrow> error + 'a DFSM" where
  "reduce_dfsm D =
     (let n = dfsm_number_states D;
          tr = dfsm_transitions_between_states D;
          not_acceptable_states = filter (\<lambda>i. i \<notin> set (dfsm_acceptable_states D)) [0..<n];
          classes0 = [dfsm_acceptable_states D, not_acceptable_states];
          q0 = enqueue_halves (alphabet D) (dfsm_acceptable_states D) not_acceptable_states
      in case reduce_loop D classes0 q0 of
           Inl e \<Rightarrow> Inl e
         | Inr classes \<Rightarrow>
             (case class_numbers classes of (d, new_number) \<Rightarrow>
             (case for_each (\<lambda>s ntr.
                       if s < length tr then for_each (merge_edge d s) (tr ! s) ntr
                       else Inl IndexError)
                     [0..<n] (replicate new_number []) of
                Inl e \<Rightarrow> Inl e
              | Inr ntr \<Rightarrow>
             (case lookup d (initial_state D) of
                Inl e \<Rightarrow> Inl e
              | Inr ini \<Rightarrow>
             (case for_each (merge_acceptable d) (dfsm_acceptable_states D) [] of
                Inl e \<Rightarrow> Inl e
              | Inr acc \<Rightarrow>
                  Inr \<lparr>alphabet = alphabet D,
                       dfsm_number_states = new_number,
                       dfsm_transitions_between_states = ntr,
                       initial_state = ini,
                       dfsm_acceptable_states = acc\<rparr>)))))"

subsection \<open>The language of a deterministic machine\<close>

text \<open>
  The class has no acceptance method. A word is accepted when stepping with
  \<open>_transition\<close> from the initial state, one symbol at a time, ends in an acceptable
  state; a missing transition rejects.
\<close>

fun dfsm_run :: "'a DFSM \<Rightarrow> nat \<Rightarrow> 'a list \<Rightarrow> error + bool" where
  "dfsm_run D state [] = Inr (state \<in> set (dfsm_acceptable_states D))"
| "dfsm_run D state (c # w) =
     (case transition D state c of
        Inl e \<Rightarrow> Inl e
      | Inr to_state \<Rightarrow> if to_state = - 1 then Inr False else dfsm_run D (nat to_state) w)"

definition dfsm_accepts :: "'a DFSM \<Rightarrow> 'a list \<Rightarrow> error + bool" where
  "dfsm_accepts D w = dfsm_run D (initial_state D) w"

section \<open>The machines and expressions of the scenarios\<close>

text \<open>
  Modelled from the spec: the file \<open>reg_expr_test.json\<close> that the test of
  EilenbergMachine.py reads is not part of the sources. This is the expression the test's
  comment and the spec name, \<open>((a|b*)*.((d*.e)|c)).(b|a)*\<close>, as the dictionary the
  parser of regexConversions.py builds from that string.
\<close>

definition reg_expr_test :: reg_expr where
  "reg_expr_test =
     Node ''.'' (FstSnd
       (Node ''.'' (FstSnd
          (Node ''*'' (Expr (Node ''|'' (FstSnd (Node ''atm'' (Str ''a''))
                                               (Node ''*'' (Expr (Node ''atm'' (Str ''b''))))))))
          (Node ''|'' (FstSnd
             (Node ''.'' (FstSnd (Node ''*'' (Expr (Node ''atm'' (Str ''d''))))
                                 (Node ''atm'' (Str ''e''))))
             (Node ''atm'' (Str ''c''))))))
       (Node ''*'' (Expr (Node ''|'' (FstSnd (Node ''atm'' (Str ''b''))
                                             (Node ''atm'' (Str ''a'')))))))"

text \<open>The machine of the test at the end of DFSM.py.\<close>

definition dfsm_test :: "char DFSM" where
  "dfsm_test =
     \<lparr>alphabet = [CHR ''a'', CHR ''b'', CHR ''c''],
      dfsm_number_states = 5,
      dfsm_transitions_between_states =
        [[(1, CHR ''a''), (3, CHR ''b'')], [(4, CHR ''c'')], [(1, CHR ''b'')],
         [(4, CHR ''c'')], []],
      initial_state = 0,
      dfsm_acceptable_states = [4]\<rparr>"

text \<open>
  A deterministic machine with four states, all reachable from state 0; states 0 and 3
  are acceptable. State 1 accepts the word \<open>ab\<close>, state 2 does not.
\<close>

definition dfsm_four :: "char DFSM" where
  "dfsm_four =
     \<lparr>alphabet = [CHR ''a'', CHR ''b''],
      dfsm_number_states = 4,
      dfsm_transitions_between_states =
        [[(1, CHR ''a''), (3, CHR ''b'')], [(2, CHR ''a''), (0, CHR ''b'')],
         [(0, CHR ''b'')], []],
      initial_state = 0,
      dfsm_acceptable_states = [0, 3]\<rparr>"

text \<open>
  A deterministic machine with six states, all reachable from state 0; states 1 and 2
  are acceptable.
\<close>

definition dfsm_six :: "char DFSM" where
  "dfsm_six =
     \<lparr>alphabet = [CHR ''a'', CHR ''b''],
      dfsm_number_states = 6,
      dfsm_transitions_between_states =
        [[(1, CHR ''a''), (1, CHR ''b'')], [(2, CHR ''a''), (3, CHR ''b'')],
         [(4, CHR ''a''), (5, CHR ''b'')], [(1, CHR ''b'')], [(1, CHR ''a'')], []],
      initial_state = 0,
      dfsm_acceptable_states = [1, 2]\<rparr>"

text \<open>A deterministic machine with one state, a loop on it, and no acceptable state.\<close>

definition dfsm_loop :: "char DFSM" where
  "dfsm_loop =
     \<lparr>alphabet = [CHR ''a''],
      dfsm_number_states = 1,
      dfsm_transitions_between_states = [[(0, CHR ''a'')]],
      initial_state = 0,
      dfsm_acceptable_states = []\<rparr>"

section \<open>Properties of regexConversions.py\<close>

text \<open>
  Claim C3. When \<open>.\<close> or \<open>|\<close> is read, the operators on the stack are popped while the
  priority of the top is at most the priority of the incoming operator, so that a chain
  \<open>a.b.c\<close> becomes the left-associative postfix \<open>ab.c.\<close>.

  The code pops only while the incoming priority is strictly greater than the priority of
  the top: an operator of equal priority stays on the stack, and \<open>a.b.c\<close> becomes
  \<open>abc..\<close>, the postfix form of \<open>a.(b.c)\<close>. The module's docstring says that \<open>.\<close> and
  \<open>|\<close> are left associative.
\<close>

theorem postfix_chain_groups_to_the_right:
  "conversion_to_postfix_expr ''a.b.c'' = Inr ''abc..''
   \<and> conversion_to_postfix_expr ''a.b.c'' \<noteq> Inr ''ab.c.''
   \<and> pop_prioritized (CHR ''.'') ''ab'' [CHR ''.''] = Inr (''ab'', [CHR ''.''])"
  by code_simp

text \<open>
  Claim C4. Converting an expression to a string and parsing the string gives the
  expression back, also for left-nested expressions such as \<open>(a.b).c\<close>.

  The left-nested concatenation is printed as \<open>a.b.c\<close>, which the parser reads as
  \<open>a.(b.c)\<close>: the round trip changes the expression.
\<close>

theorem round_trip_left_nested_fails:
  "conversion_reg_expr_to_str
     (Node ''.'' (FstSnd (Node ''.'' (FstSnd (Node ''atm'' (Str ''a'')) (Node ''atm'' (Str ''b''))))
                         (Node ''atm'' (Str ''c''))))
     = Inr (Some (Str ''a.b.c''))
   \<and> conversion_reg_expr_to_json ''a.b.c''
     = Inr (Node ''.'' (FstSnd (Node ''atm'' (Str ''a''))
                              (Node ''.'' (FstSnd (Node ''atm'' (Str ''b''))
                                                  (Node ''atm'' (Str ''c''))))))
   \<and> conversion_reg_expr_to_json ''a.b.c''
     \<noteq> Inr (Node ''.'' (FstSnd (Node ''.'' (FstSnd (Node ''atm'' (Str ''a''))
                                                    (Node ''atm'' (Str ''b''))))
                                (Node ''atm'' (Str ''c''))))"
  by code_simp

section \<open>Properties of EilenbergMachine.py\<close>

text \<open>
  Claim C2. The machine built from the expression \<open>((a|b*)*.((d*.e)|c)).(b|a)*\<close> rejects
  \<open>ac\<close>, the empty word, \<open>bbbda\<close>, \<open>bbabbda\<close>, \<open>abab\<close> and \<open>addeca\<close>, and accepts
  \<open>abbddeaaab\<close>, \<open>aca\<close>, \<open>bdea\<close> and \<open>bbcbb\<close>. The expression is the one the parser
  builds from the string.
\<close>

theorem accept_test_expression:
  "conversion_reg_expr_to_json ''((a|b*)*.((d*.e)|c)).(b|a)*'' = Inr reg_expr_test
   \<and> (\<exists>machine. get_Eilenberg_machine reg_expr_test = Some (Inr (Some machine))
        \<and> accept machine ''ac'' = Inr False
        \<and> accept machine '''' = Inr False
        \<and> accept machine ''bbbda'' = Inr False
        \<and> accept machine ''bbabbda'' = Inr False
        \<and> accept machine ''abab'' = Inr False
        \<and> accept machine ''addeca'' = Inr False
        \<and> accept machine ''abbddeaaab'' = Inr True
        \<and> accept machine ''aca'' = Inr True
        \<and> accept machine ''bdea'' = Inr True
        \<and> accept machine ''bbcbb'' = Inr True)"
proof -
  let ?M = "\<lparr>number_states = 9,
      transitions_between_states =
        [[(1, Str ''a''), (0, Str ''a''), (2, Str ''a'')],
         [(4, Str ''d''), (1, Str ''d''), (6, Str ''c'')],
         [(3, Str ''b''), (2, Str ''b''), (0, Str ''b''), (2, Str ''b'')],
         [(4, Str ''d''), (3, Str ''d''), (6, Str ''c'')],
         [(5, Str ''e'')],
         [(7, Str ''b''), (5, Str ''b''), (5, Str ''b''),
          (8, Str ''a''), (5, Str ''a''), (5, Str ''a'')],
         [(7, Str ''b''), (6, Str ''b''), (6, Str ''b''),
          (8, Str ''a''), (6, Str ''a''), (6, Str ''a'')],
         [], []],
      initial_states = [0, 2], acceptable_states = [7, 8]\<rparr>"
  have parse: "conversion_reg_expr_to_json ''((a|b*)*.((d*.e)|c)).(b|a)*'' = Inr reg_expr_test"
    by code_simp
  have build: "get_Eilenberg_machine reg_expr_test = Some (Inr (Some ?M))"
    by code_simp
  have "accept ?M ''ac'' = Inr False" by code_simp
  moreover have "accept ?M '''' = Inr False" by code_simp
  moreover have "accept ?M ''bbbda'' = Inr False" by code_simp
  moreover have "accept ?M ''bbabbda'' = Inr False" by code_simp
  moreover have "accept ?M ''abab'' = Inr False" by code_simp
  moreover have "accept ?M ''addeca'' = Inr False" by code_simp
  moreover have "accept ?M ''abbddeaaab'' = Inr True" by code_simp
  moreover have "accept ?M ''aca'' = Inr True" by code_simp
  moreover have "accept ?M ''bdea'' = Inr True" by code_simp
  moreover have "accept ?M ''bbcbb'' = Inr True" by code_simp
  ultimately show ?thesis using parse build by blast
qed

text \<open>
  Claim C9. For a record whose tag is none of \<open>atm\<close>, \<open>*\<close>, \<open>.\<close> and \<open>|\<close>, the
  construction of the machine and the conversion to a string fail with an error.

  Neither function has a branch for such a tag and neither raises: both fall through the
  \<open>if\<close> chain and return \<open>None\<close>. The first theorem is the claim as amended, the second
  applies it to the tag \<open>+\<close>, the third evaluates both functions at the tag \<open>?\<close>.
\<close>

theorem unknown_tag_returns_None:
  assumes "k \<noteq> ''atm''" and "k \<noteq> ''*''" and "k \<noteq> ''.''" and "k \<noteq> ''|''"
  shows "get_Eilenberg_machine (Node k v) = Some (Inr None)
         \<and> conversion_reg_expr_to_str (Node k v) = Inr None"
  using assms by simp

theorem unknown_tag_returns_None_witness:
  "''+'' \<noteq> ''atm'' \<and> ''+'' \<noteq> ''*'' \<and> ''+'' \<noteq> ''.'' \<and> ''+'' \<noteq> ''|''
   \<and> get_Eilenberg_machine
        (Node ''+'' (FstSnd (Node ''atm'' (Str ''a'')) (Node ''atm'' (Str ''b''))))
       = Some (Inr None)
   \<and> conversion_reg_expr_to_str
        (Node ''+'' (FstSnd (Node ''atm'' (Str ''a'')) (Node ''atm'' (Str ''b''))))
       = Inr None"
  using unknown_tag_returns_None
    [of "''+''" "FstSnd (Node ''atm'' (Str ''a'')) (Node ''atm'' (Str ''b''))"]
  by simp

theorem unknown_tag_no_error_counterexample:
  "get_Eilenberg_machine (Node ''?'' (Expr (Node ''atm'' (Str ''a'')))) = Some (Inr None)
   \<and> conversion_reg_expr_to_str (Node ''?'' (Expr (Node ''atm'' (Str ''a'')))) = Inr None"
  by simp

subsection \<open>Well-formed machines\<close>

text \<open>
  The states of a machine are in range when the adjacency list has one entry per state,
  every edge, initial state and acceptable state is below the state count, and no initial
  state is listed twice. A machine is well formed when moreover no state is both initial
  and acceptable. These are the conditions under which the builders raise nothing, and
  they are what every builder hands on to the next.
\<close>

lemma for_each_invariant:
  assumes "P s"
    and "\<And>x s. x \<in> set xs \<Longrightarrow> P s \<Longrightarrow> \<exists>s'. f x s = Inr s' \<and> P s'"
  shows "\<exists>s'. for_each f xs s = Inr s' \<and> P s'"
  using assms
proof (induction xs arbitrary: s)
  case Nil
  then show ?case by simp
next
  case (Cons x xs)
  from Cons.prems obtain s1 where 1: "f x s = Inr s1" "P s1"
    by (meson list.set_intros(1))
  have "\<exists>s'. for_each f xs s1 = Inr s' \<and> P s'"
    using 1(2) Cons.prems(2) by (intro Cons.IH) auto
  with 1(1) show ?case by simp
qed

definition in_range :: "EilenbergMachine \<Rightarrow> bool" where
  "in_range M \<longleftrightarrow>
     length (transitions_between_states M) = number_states M
     \<and> (\<forall>row \<in> set (transitions_between_states M). \<forall>edge \<in> set row. fst edge < number_states M)
     \<and> distinct (initial_states M)
     \<and> (\<forall>s \<in> set (initial_states M). s < number_states M)
     \<and> (\<forall>s \<in> set (acceptable_states M). s < number_states M)"

definition wf_machine :: "EilenbergMachine \<Rightarrow> bool" where
  "wf_machine M \<longleftrightarrow>
     in_range M \<and> set (initial_states M) \<inter> set (acceptable_states M) = {}"

text \<open>The same for an adjacency list alone, with \<open>n\<close> states.\<close>

definition wf_rows :: "nat \<Rightarrow> (nat \<times> pyval) list list \<Rightarrow> bool" where
  "wf_rows n tr \<longleftrightarrow> length tr = n \<and> (\<forall>row \<in> set tr. \<forall>edge \<in> set row. fst edge < n)"

lemma wf_rows_update:
  "wf_rows n tr \<Longrightarrow> i < n \<Longrightarrow> \<forall>edge \<in> set row. fst edge < n \<Longrightarrow> wf_rows n (tr[i := row])"
  unfolding wf_rows_def by (auto dest!: subsetD[OF set_update_subset_insert])

lemma wf_rows_nth: "wf_rows n tr \<Longrightarrow> i < n \<Longrightarrow> edge \<in> set (tr ! i) \<Longrightarrow> fst edge < n"
  unfolding wf_rows_def by (metis nth_mem)

lemma append_at_wf:
  "wf_rows n tr \<Longrightarrow> i < n \<Longrightarrow> fst x < n \<Longrightarrow>
   \<exists>tr'. append_at tr i (Inr x) = Inr tr' \<and> wf_rows n tr'"
proof -
  assume wf: "wf_rows n tr" and i: "i < n" and x: "fst x < n"
  have "\<forall>edge \<in> set (tr ! i @ [x]). fst edge < n"
    using wf_rows_nth[OF wf i] x by auto
  then have "wf_rows n (tr[i := tr ! i @ [x]])"
    using wf i by (intro wf_rows_update)
  moreover have "i < length tr"
    using wf i by (simp add: wf_rows_def)
  ultimately show ?thesis by (simp add: append_at_def)
qed

text \<open>
  The star loop ends when no initial state is acceptable: an edge to an acceptable state
  adds one edge per initial state, and none of the added edges adds more.
\<close>

definition star_measure :: "nat list \<Rightarrow> nat list \<Rightarrow> (nat \<times> pyval) list \<Rightarrow> nat" where
  "star_measure acc inits es = length es + length inits * length (filter (\<lambda>e. fst e \<in> set acc) es)"

lemma asterisk_row_terminates:
  assumes "set inits \<inter> set acc = {}"
  shows "\<exists>row'. asterisk_row acc inits row j = Some row'
           \<and> fst ` set row' \<subseteq> fst ` set row \<union> set inits"
proof (induction "star_measure acc inits (drop j row)" arbitrary: row j rule: less_induct)
  case less
  show ?case
  proof (cases "j < length row")
    case False
    then show ?thesis by (subst asterisk_row.simps) simp
  next
    case True
    then have dj: "drop j row = row ! j # drop (Suc j) row"
      by (simp add: Cons_nth_drop_Suc)
    show ?thesis
    proof (cases "fst (row ! j) \<in> set acc")
      case False
      have "star_measure acc inits (drop (Suc j) row) < star_measure acc inits (drop j row)"
        using False by (simp add: dj star_measure_def)
      from less[OF this] obtain row' where
        "asterisk_row acc inits row (Suc j) = Some row'"
        "fst ` set row' \<subseteq> fst ` set row \<union> set inits" by blast
      then show ?thesis using True False by (subst asterisk_row.simps) simp
    next
      case acc: True
      let ?new = "map (\<lambda>init_state. (init_state, snd (row ! j))) inits"
      have none: "filter (\<lambda>e. fst e \<in> set acc) ?new = []"
        using assms by (auto simp: filter_empty_conv)
      have "star_measure acc inits (drop (Suc j) (row @ ?new))
          < star_measure acc inits (drop j row)"
        using acc True by (simp add: dj star_measure_def none)
      from less[OF this] obtain row' where
        r: "asterisk_row acc inits (row @ ?new) (Suc j) = Some row'"
        "fst ` set row' \<subseteq> fst ` set (row @ ?new) \<union> set inits" by blast
      have "fst ` set (row @ ?new) \<subseteq> fst ` set row \<union> set inits"
        by (auto simp: image_Un)
      with r show ?thesis using True acc by (subst asterisk_row.simps) auto
    qed
  qed
qed

lemma asterisk_rows_wf:
  assumes "set inits \<inter> set acc = {}" and "\<forall>i \<in> set inits. i < n"
  shows "wf_rows n tr \<Longrightarrow> \<forall>s \<in> set ss. s < n \<Longrightarrow>
         \<exists>tr'. asterisk_rows acc inits ss tr = Some (Inr tr') \<and> wf_rows n tr'"
proof (induction ss arbitrary: tr)
  case Nil
  then show ?case by simp
next
  case (Cons s ss)
  then have s: "s < n" "s < length tr" by (auto simp: wf_rows_def)
  from asterisk_row_terminates[OF assms(1), of "tr ! s" 0] obtain row where
    row: "asterisk_row acc inits (tr ! s) 0 = Some row"
    "fst ` set row \<subseteq> fst ` set (tr ! s) \<union> set inits" by blast
  have "\<forall>edge \<in> set row. fst edge < n"
    using row(2) assms(2) wf_rows_nth[OF Cons.prems(1) s(1)] by auto
  then have "wf_rows n (tr[s := row])"
    using Cons.prems(1) s(1) by (intro wf_rows_update)
  from Cons.IH[OF this] Cons.prems(2) obtain tr' where
    "asterisk_rows acc inits ss (tr[s := row]) = Some (Inr tr')" "wf_rows n tr'" by auto
  then show ?case using s row(1) by simp
qed

lemma wf_machine_rows:
  "wf_machine M \<Longrightarrow> wf_rows (number_states M) (transitions_between_states M)"
  by (simp add: wf_machine_def in_range_def wf_rows_def)

lemma asterisk_machine_wf:
  assumes "wf_machine M"
  shows "\<exists>M'. asterisk_machine M = Some (Inr M') \<and> wf_machine M'
           \<and> initial_states M' = initial_states M \<and> acceptable_states M' = acceptable_states M"
proof -
  from assms have "set (initial_states M) \<inter> set (acceptable_states M) = {}"
    "\<forall>i \<in> set (initial_states M). i < number_states M"
    by (simp_all add: wf_machine_def in_range_def)
  from asterisk_rows_wf[OF this wf_machine_rows[OF assms], of "[0..<number_states M]"]
  obtain tr' where tr': "asterisk_rows (acceptable_states M) (initial_states M)
        [0..<number_states M] (transitions_between_states M) = Some (Inr tr')"
    "wf_rows (number_states M) tr'" by auto
  then show ?thesis using assms
    by (auto simp: asterisk_machine_def wf_machine_def in_range_def wf_rows_def)
qed

lemma or_machines_wf:
  assumes "wf_machine A" and "wf_machine B"
  shows "\<exists>M. or_machines A B = Inr M \<and> wf_machine M"
proof -
  let ?n1 = "number_states A" and ?n2 = "number_states B"
  let ?N = "?n1 + ?n2"
  let ?tr0 = "transitions_between_states A @ replicate ?n2 []"
  have tr0: "wf_rows ?N ?tr0"
    using assms(1) by (fastforce simp: wf_machine_def in_range_def wf_rows_def)
  have "\<exists>tr. for_each (\<lambda>s tr.
                  if s < length (transitions_between_states B) then
                    for_each (\<lambda>edge tr. append_at tr (s + ?n1) (Inr (fst edge + ?n1, snd edge)))
                      (transitions_between_states B ! s) tr
                  else Inl IndexError)
                [0..<?n2] ?tr0 = Inr tr \<and> wf_rows ?N tr"
  proof (rule for_each_invariant[where P = "wf_rows ?N", OF tr0], goal_cases)
    case (1 s tr)
    then have s: "s < ?n2" "s < length (transitions_between_states B)"
      using assms(2) by (auto simp: wf_machine_def in_range_def)
    have "\<exists>tr'. for_each (\<lambda>edge tr. append_at tr (s + ?n1) (Inr (fst edge + ?n1, snd edge)))
                      (transitions_between_states B ! s) tr = Inr tr' \<and> wf_rows ?N tr'"
    proof (rule for_each_invariant[where P = "wf_rows ?N", OF 1(2)], goal_cases)
      case (1 edge tr)
      have "fst edge < ?n2"
        using wf_rows_nth[OF wf_machine_rows[OF assms(2)] s(1) 1(1)] .
      then show ?case using s(1) 1(2) by (intro append_at_wf) auto
    qed
    then show ?case using s by simp
  qed
  then obtain tr where tr: "for_each (\<lambda>s tr.
                  if s < length (transitions_between_states B) then
                    for_each (\<lambda>edge tr. append_at tr (s + ?n1) (Inr (fst edge + ?n1, snd edge)))
                      (transitions_between_states B ! s) tr
                  else Inl IndexError)
                [0..<?n2] ?tr0 = Inr tr" "wf_rows ?N tr" by blast
  have "wf_machine \<lparr>number_states = ?N,
                  transitions_between_states = tr,
                  initial_states =
                    initial_states A @ map (\<lambda>s. s + ?n1) (initial_states B),
                  acceptable_states =
                    acceptable_states A @ map (\<lambda>s. s + ?n1) (acceptable_states B)\<rparr>"
    using tr(2) assms unfolding wf_machine_def in_range_def wf_rows_def
    by (auto simp: distinct_map inj_on_def)
  then show ?thesis using tr(1) by (simp add: or_machines_def Let_def)
qed


text \<open>
  The value of \<open>new_state_numbers\<close> at a state that is not initial: \<open>start\<close> plus the
  number of smaller states that are not initial.
\<close>

definition remap :: "nat list \<Rightarrow> nat \<Rightarrow> nat \<Rightarrow> nat" where
  "remap inits start s = start + length (filter (\<lambda>t. t \<notin> set inits) [0..<s])"

lemma new_state_numbers_fold:
  "fold (\<lambda>s (d, new_number).
                  if s \<notin> set inits then (d(s \<mapsto> new_number), Suc new_number)
                  else (d, new_number))
            [0..<n] (Map.empty, start)
   = ((\<lambda>s. if s < n \<and> s \<notin> set inits then Some (remap inits start s) else None),
      remap inits start n)"
proof (induction n)
  case 0
  then show ?case by (simp add: remap_def)
next
  case (Suc n)
  then show ?case by (auto simp: remap_def fun_eq_iff less_Suc_eq)
qed

lemma new_state_numbers_eq:
  "new_state_numbers inits n start s
   = (if s < n \<and> s \<notin> set inits then Some (remap inits start s) else None)"
  by (simp add: new_state_numbers_def new_state_numbers_fold)

lemma noninitial_count:
  assumes "distinct inits" and "\<forall>i \<in> set inits. i < n"
  shows "length (filter (\<lambda>t. t \<notin> set inits) [0..<n]) = n - length inits"
proof -
  have "length (filter (\<lambda>t. t \<in> set inits) [0..<n]) = card ({t. t \<in> set inits} \<inter> set [0..<n])"
    by (rule distinct_length_filter) simp
  also have "{t. t \<in> set inits} \<inter> set [0..<n] = set inits"
    using assms(2) by auto
  also have "card (set inits) = length inits"
    using assms(1) by (rule distinct_card)
  finally have "length (filter (\<lambda>t. t \<in> set inits) [0..<n]) = length inits" .
  moreover have "length (filter (\<lambda>t. t \<in> set inits) [0..<n])
      + length (filter (\<lambda>t. \<not> t \<in> set inits) [0..<n]) = length [0..<n]"
    by (rule sum_length_filter_compl)
  ultimately show ?thesis by simp
qed

lemma remap_less:
  assumes "s < n" and "s \<notin> set inits"
  shows "remap inits start s < start + length (filter (\<lambda>t. t \<notin> set inits) [0..<n])"
proof -
  have "[0..<n] = [0..<s] @ s # [Suc s..<n]"
    using assms(1) by (metis le0 upt_conv_Cons upt_add_eq_append le_add_diff_inverse less_imp_le_nat)
  then have "filter (\<lambda>t. t \<notin> set inits) [0..<n]
      = filter (\<lambda>t. t \<notin> set inits) [0..<s] @ s # filter (\<lambda>t. t \<notin> set inits) [Suc s..<n]"
    using assms(2) by simp
  then show ?thesis by (simp add: remap_def)
qed

lemma remap_ge: "start \<le> remap inits start s"
  by (simp add: remap_def)

lemma collect_acceptable:
  assumes "\<forall>s \<in> set xs. d s = Some (f s)"
  shows "for_each (\<lambda>s acc. case lookup d s of Inl e \<Rightarrow> Inl e | Inr k \<Rightarrow> Inr (acc @ [k])) xs acc0
         = Inr (acc0 @ map f xs)"
  using assms by (induction xs arbitrary: acc0) (simp_all add: lookup_def)

lemma concat_edge_wf:
  assumes tr: "wf_rows N tr"
    and acc: "\<forall>a \<in> set fst_acceptable. a < N"
    and s: "s \<in> set snd_initial \<or> (\<exists>k. d s = Some k \<and> k < N)"
    and t: "fst edge \<in> set snd_initial \<or> (\<exists>k. d (fst edge) = Some k \<and> k < N)"
  shows "\<exists>tr'. concat_edge fst_acceptable snd_initial d s edge tr = Inr tr' \<and> wf_rows N tr'"
proof -
  obtain state character where edge: "edge = (state, character)" by (cases edge)
  consider (a) "s \<in> set snd_initial" "state \<notin> set snd_initial"
    | (b) "s \<in> set snd_initial" "state \<in> set snd_initial"
    | (c) "s \<notin> set snd_initial" "state \<in> set snd_initial"
    | (d) "s \<notin> set snd_initial" "state \<notin> set snd_initial" by blast
  then show ?thesis
  proof cases
    case a
    with t edge obtain k where k: "d state = Some k" "k < N" by auto
    have "\<exists>tr'. for_each (\<lambda>act_s tr.
              append_at tr act_s
                (case lookup d state of Inl e \<Rightarrow> Inl e | Inr k \<Rightarrow> Inr (k, character)))
            fst_acceptable tr = Inr tr' \<and> wf_rows N tr'"
      by (rule for_each_invariant[where P = "wf_rows N", OF tr])
         (use acc k in \<open>auto simp: lookup_def intro!: append_at_wf\<close>)
    then show ?thesis using a edge by (simp add: concat_edge_def)
  next
    case b
    have "\<exists>tr'. for_each (\<lambda>act_s tr. append_at tr act_s (Inr (act_s, character)))
            fst_acceptable tr = Inr tr' \<and> wf_rows N tr'"
      by (rule for_each_invariant[where P = "wf_rows N", OF tr])
         (use acc in \<open>auto intro!: append_at_wf\<close>)
    then show ?thesis using b edge by (simp add: concat_edge_def)
  next
    case c
    with s obtain k where k: "d s = Some k" "k < N" by auto
    have "\<exists>tr'. for_each (\<lambda>act_s tr.
              case lookup d s of
                Inl e \<Rightarrow> Inl e
              | Inr k \<Rightarrow> append_at tr k (Inr (act_s, character)))
            fst_acceptable tr = Inr tr' \<and> wf_rows N tr'"
      by (rule for_each_invariant[where P = "wf_rows N", OF tr])
         (use acc k in \<open>auto simp: lookup_def intro!: append_at_wf\<close>)
    then show ?thesis using c edge by (simp add: concat_edge_def)
  next
    case d
    with s obtain k where k: "d s = Some k" "k < N" by auto
    from d t edge obtain k' where k': "d state = Some k'" "k' < N" by auto
    have "\<exists>tr'. append_at tr k (Inr (k', character)) = Inr tr' \<and> wf_rows N tr'"
      using tr k(2) k'(2) by (intro append_at_wf) auto
    then show ?thesis using d edge k k' by (simp add: concat_edge_def lookup_def)
  qed
qed

lemma collect_acceptable_KeyError:
  assumes "\<exists>s \<in> set xs. d s = None"
  shows "for_each (\<lambda>s acc. case lookup d s of Inl e \<Rightarrow> Inl e | Inr k \<Rightarrow> Inr (acc @ [k])) xs acc0
         = Inl KeyError"
  using assms
proof (induction xs arbitrary: acc0)
  case Nil
  then show ?case by simp
next
  case (Cons x xs)
  then show ?case by (cases "d x") (auto simp: lookup_def)
qed

lemma in_range_rows:
  "in_range M \<Longrightarrow> wf_rows (number_states M) (transitions_between_states M)"
  by (simp add: in_range_def wf_rows_def)

lemma concat_machines_in_range:
  assumes A: "in_range A" and B: "in_range B"
  shows "if set (initial_states B) \<inter> set (acceptable_states B) = {} then
           \<exists>M. concat_machines A B = Inr M \<and> wf_machine M
             \<and> number_states M = number_states A + number_states B - length (initial_states B)
             \<and> initial_states M = initial_states A
             \<and> acceptable_states M
                 = map (remap (initial_states B) (number_states A)) (acceptable_states B)
         else concat_machines A B = Inl KeyError"
proof -
  let ?n1 = "number_states A" and ?n2 = "number_states B"
  let ?inits = "initial_states B"
  let ?d = "new_state_numbers ?inits ?n2 ?n1"
  let ?N = "?n1 + ?n2 - length ?inits"
  let ?tr0 = "transitions_between_states A @ replicate (?n2 - length ?inits) []"
  let ?body = "\<lambda>s tr.
                  if s < length (transitions_between_states B) then
                    for_each (concat_edge (acceptable_states A) ?inits ?d s)
                      (transitions_between_states B ! s) tr
                  else Inl IndexError"
  let ?collect = "\<lambda>s acc. case lookup ?d s of Inl e \<Rightarrow> Inl e | Inr k \<Rightarrow> Inr (acc @ [k])"
  have cnt: "length (filter (\<lambda>t. t \<notin> set ?inits) [0..<?n2]) = ?n2 - length ?inits"
    using B by (intro noninitial_count) (simp_all add: in_range_def)
  have "length ?inits = card (set ?inits)"
    using B by (simp add: in_range_def distinct_card)
  also have "\<dots> \<le> card {..<?n2}"
    using B by (intro card_mono) (auto simp: in_range_def)
  finally have len: "length ?inits \<le> ?n2" by simp
  have d: "s \<in> set ?inits \<or> (\<exists>k. ?d s = Some k \<and> k < ?N)" if "s < ?n2" for s
    using remap_less[OF that, of ?inits ?n1] len
    by (auto simp: new_state_numbers_eq that cnt)
  have accA: "\<forall>a \<in> set (acceptable_states A). a < ?N"
    using A len by (auto simp: in_range_def)
  have tr0: "wf_rows ?N ?tr0"
    using A len by (fastforce simp: in_range_def wf_rows_def)
  have "\<exists>tr. for_each ?body [0..<?n2] ?tr0 = Inr tr \<and> wf_rows ?N tr"
  proof (rule for_each_invariant[where P = "wf_rows ?N", OF tr0], goal_cases)
    case (1 s tr)
    then have s: "s < ?n2" "s < length (transitions_between_states B)"
      using B by (auto simp: in_range_def)
    have "\<exists>tr'. for_each (concat_edge (acceptable_states A) ?inits ?d s)
                      (transitions_between_states B ! s) tr = Inr tr' \<and> wf_rows ?N tr'"
    proof (rule for_each_invariant[where P = "wf_rows ?N", OF 1(2)], goal_cases)
      case (1 edge tr)
      have "fst edge < ?n2"
        using wf_rows_nth[OF in_range_rows[OF B] s(1) 1(1)] .
      from concat_edge_wf[OF 1(2) accA d[OF s(1)] d[OF this]] show ?case .
    qed
    then show ?case using s by simp
  qed
  then obtain tr where tr: "for_each ?body [0..<?n2] ?tr0 = Inr tr" "wf_rows ?N tr"
    by blast
  show ?thesis
  proof (cases "set ?inits \<inter> set (acceptable_states B) = {}")
    case True
    have accB: "\<forall>s \<in> set (acceptable_states B). ?d s = Some (remap ?inits ?n1 s)"
      using B True by (auto simp: new_state_numbers_eq in_range_def)
    let ?acc = "map (remap ?inits ?n1) (acceptable_states B)"
    have acc: "for_each ?collect (acceptable_states B) [] = Inr ?acc"
      using collect_acceptable[OF accB, of "[]"] by simp
    have range: "\<forall>s \<in> set (acceptable_states B).
        ?n1 \<le> remap ?inits ?n1 s \<and> remap ?inits ?n1 s < ?N"
    proof
      fix s assume s: "s \<in> set (acceptable_states B)"
      then have "s < ?n2" "s \<notin> set ?inits"
        using B True by (auto simp: in_range_def)
      from remap_less[OF this, of ?n1] len cnt remap_ge[of ?n1 ?inits s]
      show "?n1 \<le> remap ?inits ?n1 s \<and> remap ?inits ?n1 s < ?N" by simp
    qed
    have "wf_machine \<lparr>number_states = ?N, transitions_between_states = tr,
            initial_states = initial_states A, acceptable_states = ?acc\<rparr>"
      using tr(2) A len range unfolding wf_machine_def in_range_def wf_rows_def
      by (fastforce simp: disjoint_iff)
    then show ?thesis using True tr(1) acc
      by (simp add: concat_machines_def Let_def)
  next
    case False
    then obtain s where "s \<in> set (acceptable_states B)" "s \<in> set ?inits" by auto
    then have "\<exists>s \<in> set (acceptable_states B). ?d s = None"
      by (auto simp: new_state_numbers_eq)
    from collect_acceptable_KeyError[OF this, of "[]"]
    have "for_each ?collect (acceptable_states B) [] = Inl KeyError" .
    then show ?thesis using False tr(1)
      by (simp add: concat_machines_def Let_def)
  qed
qed

lemma concat_machines_wf:
  assumes "wf_machine A" and "wf_machine B"
  shows "\<exists>M. concat_machines A B = Inr M \<and> wf_machine M"
  using concat_machines_in_range[of A B] assms by (auto simp: wf_machine_def)

text \<open>
  A well-formed expression: an atom carries a string, \<open>*\<close> one expression, \<open>.\<close> and
  \<open>|\<close> two.
\<close>

fun wf_ast :: "reg_expr \<Rightarrow> bool" where
  "wf_ast (Node k v) =
     (if k = ''atm'' then (case v of Str _ \<Rightarrow> True | _ \<Rightarrow> False)
      else if k = ''*'' then (case v of Expr r \<Rightarrow> wf_ast r | _ \<Rightarrow> False)
      else if k = ''.'' \<or> k = ''|'' then
        (case v of FstSnd l r \<Rightarrow> wf_ast l \<and> wf_ast r | _ \<Rightarrow> False)
      else False)"

lemma atom_machine_wf:
  "wf_machine \<lparr>number_states = 2, transitions_between_states = [[(1, v)], []],
               initial_states = [0], acceptable_states = [1]\<rparr>"
  by (simp add: wf_machine_def in_range_def)

lemma get_Eilenberg_machine_wf:
  "wf_ast r \<Longrightarrow> \<exists>M. get_Eilenberg_machine r = Some (Inr (Some M)) \<and> wf_machine M"
proof (induction r rule: wf_ast.induct)
  case (1 k v)
  consider (atm) "k = ''atm''" | (star) "k = ''*''" | (cat) "k = ''.''" | (alt) "k = ''|''"
    using "1.prems" by (auto split: if_splits)
  then show ?case
  proof cases
    case atm
    then show ?thesis using atom_machine_wf by simp
  next
    case star
    with "1.prems" obtain r where v: "v = Expr r" and r: "wf_ast r"
      by (auto split: pyval.splits)
    from "1.IH"(1)[OF _ star v r] star obtain M where
      M: "get_Eilenberg_machine r = Some (Inr (Some M))" "wf_machine M" by auto
    from asterisk_machine_wf[OF M(2)] obtain M' where
      "asterisk_machine M = Some (Inr M')" "wf_machine M'" by blast
    then show ?thesis using star v M(1) by simp
  next
    case cat
    with "1.prems" obtain l r where v: "v = FstSnd l r" and lr: "wf_ast l" "wf_ast r"
      by (auto split: pyval.splits)
    from "1.IH"(2)[OF _ _ _ v lr(1)] cat obtain A where
      A: "get_Eilenberg_machine l = Some (Inr (Some A))" "wf_machine A" by auto
    from "1.IH"(3)[OF _ _ _ v lr(2)] cat obtain B where
      B: "get_Eilenberg_machine r = Some (Inr (Some B))" "wf_machine B" by auto
    from concat_machines_wf[OF A(2) B(2)] obtain M where
      "concat_machines A B = Inr M" "wf_machine M" by blast
    then show ?thesis using cat v A(1) B(1) by simp
  next
    case alt
    with "1.prems" obtain l r where v: "v = FstSnd l r" and lr: "wf_ast l" "wf_ast r"
      by (auto split: pyval.splits)
    from "1.IH"(2)[OF _ _ _ v lr(1)] alt obtain A where
      A: "get_Eilenberg_machine l = Some (Inr (Some A))" "wf_machine A" by auto
    from "1.IH"(3)[OF _ _ _ v lr(2)] alt obtain B where
      B: "get_Eilenberg_machine r = Some (Inr (Some B))" "wf_machine B" by auto
    from or_machines_wf[OF A(2) B(2)] obtain M where
      "or_machines A B = Inr M" "wf_machine M" by blast
    then show ?thesis using alt v A(1) B(1) by simp
  qed
qed

lemma accept_loop_empty_word:
  "\<forall>s \<in> set ss. s \<notin> set (acceptable_states M) \<Longrightarrow>
   accept_loop M (map (\<lambda>state. (state, [])) ss) = Inr False"
  by (induction ss) simp_all

text \<open>
  Claim C10. For every well-formed expression \<open>get_Eilenberg_machine\<close> returns a machine
  in which no state is both initial and acceptable, and \<open>accept\<close> rejects the empty word on
  it. The invariant is \<open>wf_machine\<close>: the atom machine has it
  (\<open>atom_machine_wf\<close>), and the star, the concatenation and the union keep it
  (\<open>asterisk_machine_wf\<close>, \<open>concat_machines_wf\<close>, \<open>or_machines_wf\<close>).
\<close>

theorem built_machine_rejects_empty_word:
  assumes "wf_ast r"
  shows "\<exists>M. get_Eilenberg_machine r = Some (Inr (Some M))
           \<and> wf_machine M
           \<and> set (initial_states M) \<inter> set (acceptable_states M) = {}
           \<and> accept M [] = Inr False"
proof -
  from get_Eilenberg_machine_wf[OF assms] obtain M where
    M: "get_Eilenberg_machine r = Some (Inr (Some M))" "wf_machine M" by blast
  from M(2) have disj: "set (initial_states M) \<inter> set (acceptable_states M) = {}"
    by (simp add: wf_machine_def)
  then have "accept M [] = Inr False"
    unfolding accept_def by (intro accept_loop_empty_word) auto
  with M disj show ?thesis by blast
qed

theorem built_machine_rejects_empty_word_witness:
  "wf_ast (Node ''.'' (FstSnd (Node ''*'' (Expr (Node ''atm'' (Str ''a''))))
                              (Node ''|'' (FstSnd (Node ''atm'' (Str ''b''))
                                                  (Node ''atm'' (Str ''c''))))))
   \<and> (\<exists>M. get_Eilenberg_machine
              (Node ''.'' (FstSnd (Node ''*'' (Expr (Node ''atm'' (Str ''a''))))
                                  (Node ''|'' (FstSnd (Node ''atm'' (Str ''b''))
                                                      (Node ''atm'' (Str ''c''))))))
            = Some (Inr (Some M))
         \<and> wf_machine M
         \<and> set (initial_states M) \<inter> set (acceptable_states M) = {}
         \<and> accept M [] = Inr False)"
proof -
  have h: "wf_ast (Node ''.'' (FstSnd (Node ''*'' (Expr (Node ''atm'' (Str ''a''))))
                              (Node ''|'' (FstSnd (Node ''atm'' (Str ''b''))
                                                  (Node ''atm'' (Str ''c''))))))"
    by simp
  from built_machine_rejects_empty_word[OF h] h show ?thesis by blast
qed




section \<open>Properties of DFSM.py\<close>

text \<open>
  Claim C1. Removing the unreachable states and then reducing the machine keeps the
  language: the result accepts a word exactly when the machine does.

  The loop \<open>for s in classes\<close> removes the class it has just split from the list it runs
  over, so the class after it is not examined for the task. On \<open>dfsm_four\<close> the task
  \<open>([1, 2], a)\<close> splits the class \<open>[0, 3]\<close> and passes over the class \<open>[1, 2]\<close>, which
  no later task separates: the states 1 and 2 end in one class although state 1 has an
  edge on \<open>a\<close> and state 2 has none. The machine rejects \<open>aaab\<close> and the reduced machine
  accepts it.
\<close>

theorem reduce_changes_language:
  "eliminate_unreachable_states dfsm_four = Inr dfsm_four
   \<and> reduce_loop dfsm_four [[0, 3], [1, 2]]
        (enqueue_halves (alphabet dfsm_four) [0, 3] [1, 2]) = Inr [[1, 2], [0], [3]]
   \<and> reduce_dfsm dfsm_four =
       Inr \<lparr>alphabet = [CHR ''a'', CHR ''b''],
            dfsm_number_states = 3,
            dfsm_transitions_between_states =
              [[(0, CHR ''a''), (1, CHR ''b'')], [(0, CHR ''a''), (2, CHR ''b'')], []],
            initial_state = 1,
            dfsm_acceptable_states = [1, 2]\<rparr>
   \<and> dfsm_accepts dfsm_four ''aaab'' = Inr False
   \<and> dfsm_accepts
        \<lparr>alphabet = [CHR ''a'', CHR ''b''],
         dfsm_number_states = 3,
         dfsm_transitions_between_states =
           [[(0, CHR ''a''), (1, CHR ''b'')], [(0, CHR ''a''), (2, CHR ''b'')], []],
         initial_state = 1,
         dfsm_acceptable_states = [1, 2]\<rparr> ''aaab'' = Inr True"
  by code_simp

text \<open>
  Claim C6. When a task \<open>(S, symbol)\<close> is processed, every class of the partition is
  split into the states that land in \<open>S\<close> and the others, and a class with two non-empty
  halves is replaced by them.

  The first task of \<open>reduce_dfsm\<close> on \<open>dfsm_six\<close> is \<open>([1, 2], a)\<close>, on the partition
  \<open>[[1, 2], [0, 3, 4, 5]]\<close>. The class \<open>[1, 2]\<close> is split and removed, the list iterator
  moves on, and the class \<open>[0, 3, 4, 5]\<close>, whose halves \<open>[0, 4]\<close> and \<open>[3, 5]\<close> are both
  non-empty, stays in the partition unsplit.
\<close>

theorem refine_skips_class_after_split:
  "filter (\<lambda>i. i \<notin> set (dfsm_acceptable_states dfsm_six)) [0..<dfsm_number_states dfsm_six]
     = [0, 3, 4, 5]
   \<and> hd (enqueue_halves (alphabet dfsm_six) [1, 2] [0, 3, 4, 5]) = ([1, 2], CHR ''a'')
   \<and> split_class dfsm_six [1, 2] (CHR ''a'') [0, 3, 4, 5] = Inr ([0, 4], [3, 5])
   \<and> refine_classes dfsm_six [1, 2] (CHR ''a'') 0 [[1, 2], [0, 3, 4, 5]] []
     = Inr ([[0, 3, 4, 5], [1], [2]],
            [([1], CHR ''a''), ([2], CHR ''a''), ([1], CHR ''b''), ([2], CHR ''b'')])"
  by code_simp

text \<open>
  Claim C8. Reducing the reduced machine again does not change the number of states.

  An empty class of the first partition is numbered like any other class and becomes a
  state without edges. On \<open>dfsm_loop\<close>, which has no acceptable state, the reduced
  machine has two states and reducing it again gives three.
\<close>

theorem reduce_twice_adds_state:
  "eliminate_unreachable_states dfsm_loop = Inr dfsm_loop
   \<and> reduce_dfsm dfsm_loop =
       Inr \<lparr>alphabet = [CHR ''a''],
            dfsm_number_states = 2,
            dfsm_transitions_between_states = [[], [(1, CHR ''a'')]],
            initial_state = 1,
            dfsm_acceptable_states = []\<rparr>
   \<and> reduce_dfsm
        \<lparr>alphabet = [CHR ''a''],
         dfsm_number_states = 2,
         dfsm_transitions_between_states = [[], [(1, CHR ''a'')]],
         initial_state = 1,
         dfsm_acceptable_states = []\<rparr> =
       Inr \<lparr>alphabet = [CHR ''a''],
            dfsm_number_states = 3,
            dfsm_transitions_between_states = [[], [(1, CHR ''a'')], []],
            initial_state = 1,
            dfsm_acceptable_states = []\<rparr>"
  by code_simp

subsection \<open>Reachable states\<close>

lemma for_each_append:
  "for_each f (xs @ ys) s =
     (case for_each f xs s of Inl e \<Rightarrow> Inl e | Inr s' \<Rightarrow> for_each f ys s')"
  by (induction xs arbitrary: s) (auto split: sum.splits)

text \<open>
  The edges of the machine as a relation on states, and the states that can be reached
  from the initial state along them.
\<close>

definition dfsm_edges :: "'a DFSM \<Rightarrow> (nat \<times> nat) set" where
  "dfsm_edges D =
     {(s, t). s < length (dfsm_transitions_between_states D)
              \<and> t \<in> fst ` set (dfsm_transitions_between_states D ! s)}"

definition reachable :: "'a DFSM \<Rightarrow> nat \<Rightarrow> bool" where
  "reachable D s \<longleftrightarrow> (initial_state D, s) \<in> (dfsm_edges D)\<^sup>*"

text \<open>
  A machine as the class describes it: one adjacency list per state, and the initial
  state, every edge and every acceptable state among the states \<open>0 .. number_states - 1\<close>.
\<close>

definition wf_dfsm :: "'a DFSM \<Rightarrow> bool" where
  "wf_dfsm D \<longleftrightarrow>
     length (dfsm_transitions_between_states D) = dfsm_number_states D
     \<and> initial_state D < dfsm_number_states D
     \<and> (\<forall>row \<in> set (dfsm_transitions_between_states D).
          \<forall>edge \<in> set row. fst edge < dfsm_number_states D)
     \<and> (\<forall>s \<in> set (dfsm_acceptable_states D). s < dfsm_number_states D)"

lemma visit_edges_result:
  "\<forall>e \<in> set es. fst e < length used \<Longrightarrow>
   \<exists>used' q'. for_each visit_edge es (used, q) = Inr (used', q')
     \<and> length used' = length used
     \<and> (\<forall>s < length used. used' ! s \<longleftrightarrow> used ! s \<or> s \<in> fst ` set es)
     \<and> set q' = set q \<union> {s \<in> fst ` set es. \<not> used ! s}"
proof (induction es arbitrary: used q)
  case Nil
  then show ?case by simp
next
  case (Cons e es)
  let ?t = "fst e"
  have t: "?t < length used" using Cons.prems by simp
  show ?case
  proof (cases "used ! ?t")
    case True
    have "\<forall>e \<in> set es. fst e < length used" using Cons.prems by simp
    from Cons.IH[OF this, of q] obtain used' q' where
      r: "for_each visit_edge es (used, q) = Inr (used', q')"
      "length used' = length used"
      "\<forall>s < length used. used' ! s \<longleftrightarrow> used ! s \<or> s \<in> fst ` set es"
      "set q' = set q \<union> {s \<in> fst ` set es. \<not> used ! s}" by blast
    have "for_each visit_edge (e # es) (used, q) = Inr (used', q')"
      using r(1) t True by (simp add: visit_edge_def)
    moreover have "\<forall>s < length used. used' ! s \<longleftrightarrow> used ! s \<or> s \<in> fst ` set (e # es)"
      using r(3) True by auto
    moreover have "set q' = set q \<union> {s \<in> fst ` set (e # es). \<not> used ! s}"
      using r(4) True by auto
    ultimately show ?thesis using r(2) by blast
  next
    case False
    let ?u = "used[?t := True]"
    have "\<forall>e \<in> set es. fst e < length ?u" using Cons.prems by simp
    from Cons.IH[OF this, of "q @ [?t]"] obtain used' q' where
      r: "for_each visit_edge es (?u, q @ [?t]) = Inr (used', q')"
      "length used' = length ?u"
      "\<forall>s < length ?u. used' ! s \<longleftrightarrow> ?u ! s \<or> s \<in> fst ` set es"
      "set q' = set (q @ [?t]) \<union> {s \<in> fst ` set es. \<not> ?u ! s}" by blast
    have "for_each visit_edge (e # es) (used, q) = Inr (used', q')"
      using r(1) t False by (simp add: visit_edge_def)
    moreover have "\<forall>s < length used. used' ! s \<longleftrightarrow> used ! s \<or> s \<in> fst ` set (e # es)"
      using r(3) t by (auto simp: nth_list_update)
    moreover have "set q' = set q \<union> {s \<in> fst ` set (e # es). \<not> used ! s}"
      using r(4) t False by (auto simp: nth_list_update)
    ultimately show ?thesis using r(2) by auto
  qed
qed

text \<open>
  What holds at every turn of the search loop: the initial state is marked, marked states
  are reachable, queued states are marked, and every edge of a marked state that is no
  longer queued leads to a marked state.
\<close>

definition bfs_invariant :: "'a DFSM \<Rightarrow> bool list \<Rightarrow> nat list \<Rightarrow> bool" where
  "bfs_invariant D used q \<longleftrightarrow>
     length used = dfsm_number_states D
     \<and> used ! initial_state D
     \<and> (\<forall>s < dfsm_number_states D. used ! s \<longrightarrow> reachable D s)
     \<and> (\<forall>s \<in> set q. s < dfsm_number_states D \<and> used ! s)
     \<and> (\<forall>s < dfsm_number_states D. used ! s \<longrightarrow> s \<notin> set q \<longrightarrow>
          (\<forall>t. (s, t) \<in> dfsm_edges D \<longrightarrow> used ! t))"

lemma reachable_step: "reachable D s \<Longrightarrow> (s, t) \<in> dfsm_edges D \<Longrightarrow> reachable D t"
  unfolding reachable_def by (rule rtrancl_into_rtrancl)

lemma edges_in_range:
  assumes "wf_dfsm D" and "(s, t) \<in> dfsm_edges D"
  shows "s < dfsm_number_states D \<and> t < dfsm_number_states D"
proof -
  let ?tr = "dfsm_transitions_between_states D"
  from assms(2) have s: "s < length ?tr" and "t \<in> fst ` set (?tr ! s)"
    by (simp_all add: dfsm_edges_def)
  then obtain e where e: "e \<in> set (?tr ! s)" "t = fst e" by auto
  have "?tr ! s \<in> set ?tr" using s by simp
  with assms(1) e have "t < dfsm_number_states D"
    by (simp add: wf_dfsm_def)
  moreover have "s < dfsm_number_states D"
    using assms(1) s by (simp add: wf_dfsm_def)
  ultimately show ?thesis by simp
qed

lemma reachable_in_range:
  assumes "wf_dfsm D" and "reachable D s"
  shows "s < dfsm_number_states D"
  using assms(2) unfolding reachable_def
proof (induction rule: rtrancl_induct)
  case base
  then show ?case using assms(1) by (simp add: wf_dfsm_def)
next
  case (step y z)
  then show ?case using edges_in_range[OF assms(1)] by blast
qed

lemma bfs_invariant_final:
  assumes wf: "wf_dfsm D" and inv: "bfs_invariant D used []"
  shows "length used = dfsm_number_states D
       \<and> (\<forall>s < dfsm_number_states D. used ! s \<longleftrightarrow> reachable D s)"
proof -
  let ?n = "dfsm_number_states D"
  from inv have len: "length used = ?n"
    and init: "used ! initial_state D"
    and sound: "\<forall>s < ?n. used ! s \<longrightarrow> reachable D s"
    and closed_step: "\<forall>s < ?n. used ! s \<longrightarrow> (\<forall>t. (s, t) \<in> dfsm_edges D \<longrightarrow> used ! t)"
    by (simp_all add: bfs_invariant_def)
  have closed: "used ! t" if "reachable D t" for t
    using that unfolding reachable_def
  proof (induction rule: rtrancl_induct)
    case base
    show ?case by (rule init)
  next
    case (step y z)
    have "y < ?n" using edges_in_range[OF wf step(2)] by simp
    with step(2,3) closed_step show ?case by blast
  qed
  from sound closed have "\<forall>s < ?n. used ! s \<longleftrightarrow> reachable D s" by blast
  with len show ?thesis by simp
qed


lemma bfs_invariant_step:
  assumes wf: "wf_dfsm D" and inv: "bfs_invariant D used (state # q)"
  shows "\<exists>used' q'.
     for_each visit_edge (dfsm_transitions_between_states D ! state) (used, q) = Inr (used', q')
     \<and> bfs_invariant D used' q'"
proof -
  let ?n = "dfsm_number_states D"
  let ?tr = "dfsm_transitions_between_states D"
  from inv have len: "length used = ?n"
    and init: "used ! initial_state D"
    and sound: "\<forall>s < ?n. used ! s \<longrightarrow> reachable D s"
    and queued: "\<forall>s \<in> set (state # q). s < ?n \<and> used ! s"
    and closed_step: "\<forall>s < ?n. used ! s \<longrightarrow> s \<notin> set (state # q) \<longrightarrow>
          (\<forall>t. (s, t) \<in> dfsm_edges D \<longrightarrow> used ! t)"
    by (simp_all add: bfs_invariant_def)
  from queued have state: "state < ?n" "used ! state" by simp_all
  have st: "state < length ?tr" using wf state(1) by (simp add: wf_dfsm_def)
  have succ: "(state, t) \<in> dfsm_edges D \<longleftrightarrow> t \<in> fst ` set (?tr ! state)" for t
    using st by (simp add: dfsm_edges_def)
  have succ_range: "t < ?n" if "t \<in> fst ` set (?tr ! state)" for t
    using edges_in_range[OF wf, of state t] succ that by simp
  have "\<forall>e \<in> set (?tr ! state). fst e < length used"
    using succ_range len by simp
  from visit_edges_result[OF this, of q] obtain used' q' where
    r: "for_each visit_edge (?tr ! state) (used, q) = Inr (used', q')"
    and len': "length used' = length used"
    and marks: "\<forall>s < length used. used' ! s \<longleftrightarrow> used ! s \<or> s \<in> fst ` set (?tr ! state)"
    and queue: "set q' = set q \<union> {s \<in> fst ` set (?tr ! state). \<not> used ! s}" by blast
  have mono: "used' ! s" if "s < ?n" "used ! s" for s
    using marks that len by simp
  have i1: "length used' = ?n" using len' len by simp
  have i2: "used' ! initial_state D"
    using mono init wf by (simp add: wf_dfsm_def)
  have i3: "\<forall>s < ?n. used' ! s \<longrightarrow> reachable D s"
  proof (intro allI impI)
    fix s assume s: "s < ?n" "used' ! s"
    then have "used ! s \<or> s \<in> fst ` set (?tr ! state)" using marks len by simp
    then show "reachable D s"
    proof
      assume "used ! s" then show ?thesis using sound s(1) by simp
    next
      assume "s \<in> fst ` set (?tr ! state)"
      then have "(state, s) \<in> dfsm_edges D" using succ by simp
      moreover have "reachable D state" using sound state by simp
      ultimately show ?thesis by (rule reachable_step[rotated])
    qed
  qed
  have i4: "\<forall>s \<in> set q'. s < ?n \<and> used' ! s"
  proof
    fix s assume "s \<in> set q'"
    then have "s \<in> set q \<or> s \<in> fst ` set (?tr ! state)" using queue by auto
    then show "s < ?n \<and> used' ! s"
    proof
      assume "s \<in> set q"
      then show ?thesis using queued mono by simp
    next
      assume a: "s \<in> fst ` set (?tr ! state)"
      then have "s < ?n" by (rule succ_range)
      then show ?thesis using a marks len by simp
    qed
  qed
  have i5: "\<forall>s < ?n. used' ! s \<longrightarrow> s \<notin> set q' \<longrightarrow>
          (\<forall>t. (s, t) \<in> dfsm_edges D \<longrightarrow> used' ! t)"
  proof (intro allI impI)
    fix s t assume s: "s < ?n" "used' ! s" "s \<notin> set q'" and e: "(s, t) \<in> dfsm_edges D"
    have t: "t < ?n" using edges_in_range[OF wf e] by simp
    have nq: "s \<notin> set q" using s(3) queue by simp
    have us: "used ! s"
    proof (rule ccontr)
      assume n: "\<not> used ! s"
      then have "s \<in> fst ` set (?tr ! state)" using marks s(1,2) len by simp
      then have "s \<in> set q'" using n queue by simp
      then show False using s(3) by simp
    qed
    show "used' ! t"
    proof (cases "s = state")
      case True
      then have "t \<in> fst ` set (?tr ! state)" using e succ by simp
      then show ?thesis using marks t len by simp
    next
      case False
      then have "s \<notin> set (state # q)" using nq by simp
      then have "used ! t" using closed_step s(1) us e by blast
      then show ?thesis using mono t by simp
    qed
  qed
  from i1 i2 i3 i4 i5 have "bfs_invariant D used' q'"
    unfolding bfs_invariant_def by blast
  with r show ?thesis by blast
qed

lemma bfs_loop_correct:
  assumes wf: "wf_dfsm D"
  shows "tr = dfsm_transitions_between_states D \<Longrightarrow> bfs_invariant D used q \<Longrightarrow>
     \<exists>used'. bfs_loop tr used q = Inr used'
       \<and> length used' = dfsm_number_states D
       \<and> (\<forall>s < dfsm_number_states D. used' ! s \<longleftrightarrow> reachable D s)"
proof (induction tr used q rule: bfs_loop.induct)
  case (1 tr used)
  from bfs_invariant_final[OF wf "1.prems"(2)] show ?case by simp
next
  case (2 tr used state q)
  note tr = "2.prems"(1)
  from bfs_invariant_step[OF wf "2.prems"(2)] obtain used' q' where
    r: "for_each visit_edge (tr ! state) (used, q) = Inr (used', q')"
    and inv: "bfs_invariant D used' q'" unfolding tr by blast
  have "state < dfsm_number_states D"
    using "2.prems"(2) by (simp add: bfs_invariant_def)
  then have st: "state < length tr" using wf tr by (simp add: wf_dfsm_def)
  from "2.IH"[OF st r refl tr inv] show ?case
    using st r by simp
qed

text \<open>
  The new number of a kept state: the number of kept states below it, which is its
  position when the kept states are listed in ascending order.
\<close>

definition new_index :: "(nat \<Rightarrow> bool) \<Rightarrow> nat \<Rightarrow> nat" where
  "new_index keep s = length (filter keep [0..<s])"

lemma new_index_Suc: "new_index keep (Suc s) = (if keep s then Suc (new_index keep s) else new_index keep s)"
  by (simp add: new_index_def)

lemma new_index_mono: "s \<le> n \<Longrightarrow> new_index keep s \<le> new_index keep n"
proof (induction n)
  case 0
  then show ?case by simp
next
  case (Suc n)
  then show ?case by (cases "s = Suc n") (auto simp: new_index_Suc)
qed

lemma new_index_less: "s < n \<Longrightarrow> keep s \<Longrightarrow> new_index keep s < new_index keep n"
  using new_index_mono[of "Suc s" n keep] by (simp add: new_index_Suc)

lemma used_numbers_eq:
  "used_numbers used n
   = ((\<lambda>s. if s < n \<and> used ! s then Some (new_index (\<lambda>t. used ! t) s) else None),
      new_index (\<lambda>t. used ! t) n)"
  unfolding used_numbers_def
proof (induction n)
  case 0
  then show ?case by (simp add: new_index_def)
next
  case (Suc n)
  then show ?case by (auto simp: new_index_Suc fun_eq_iff less_Suc_eq)
qed

lemma keep_edges_result:
  assumes "d s = Some k"
    and "\<forall>e \<in> set row. fst e < length used"
    and "\<forall>e \<in> set row. used ! fst e \<longrightarrow> d (fst e) = Some (f (fst e))"
  shows "k < length ntr \<Longrightarrow>
         for_each (keep_edge used d s) row ntr
         = Inr (ntr[k := ntr ! k @ map (\<lambda>e. (f (fst e), snd e)) (filter (\<lambda>e. used ! fst e) row)])"
  using assms(2,3)
proof (induction row arbitrary: ntr)
  case Nil
  then show ?case by simp
next
  case (Cons e row)
  show ?case
  proof (cases "used ! fst e")
    case False
    then have "keep_edge used d s e ntr = Inr ntr"
      using Cons.prems by (simp add: keep_edge_def)
    then show ?thesis using Cons False by simp
  next
    case True
    let ?ntr = "ntr[k := ntr ! k @ [(f (fst e), snd e)]]"
    have "keep_edge used d s e ntr = Inr ?ntr"
      using Cons.prems True assms(1) by (simp add: keep_edge_def lookup_def append_at_def)
    moreover have "for_each (keep_edge used d s) row ?ntr
         = Inr (?ntr[k := ?ntr ! k @ map (\<lambda>e. (f (fst e), snd e)) (filter (\<lambda>e. used ! fst e) row)])"
      using Cons.prems by (intro Cons.IH) simp_all
    ultimately show ?thesis using True Cons.prems(1) by simp
  qed
qed

lemma fill_next_row:
  "0 < j \<Longrightarrow> (xs @ replicate j [])[length xs := r] = (xs @ [r]) @ replicate (j - 1) []"
  by (cases j) (simp_all add: list_update_append)

lemma keep_rows_result:
  fixes tr :: "(nat \<times> 'a) list list"
  assumes len: "length used = n" and tr: "length tr = n"
    and range: "\<forall>row \<in> set tr. \<forall>e \<in> set row. fst e < n"
    and d: "d = (\<lambda>s. if s < n \<and> used ! s then Some (new_index (\<lambda>t. used ! t) s) else None)"
  shows "m \<le> n \<Longrightarrow>
     for_each (\<lambda>s ntr.
         if used ! s then
           (if s < length tr then for_each (keep_edge used d s) (tr ! s) ntr
            else Inl IndexError)
         else Inr ntr)
       [0..<m] (replicate (new_index (\<lambda>t. used ! t) n) [])
     = Inr (map (\<lambda>s. map (\<lambda>e. (new_index (\<lambda>t. used ! t) (fst e), snd e))
                        (filter (\<lambda>e. used ! fst e) (tr ! s)))
              (filter (\<lambda>t. used ! t) [0..<m])
            @ replicate (new_index (\<lambda>t. used ! t) n - new_index (\<lambda>t. used ! t) m) [])"
proof (induction m)
  case 0
  then show ?case by (simp add: new_index_def)
next
  case (Suc m)
  let ?keep = "\<lambda>t. used ! t"
  let ?N = "new_index ?keep n"
  let ?rowf = "\<lambda>s. map (\<lambda>e. (new_index ?keep (fst e), snd e)) (filter (\<lambda>e. used ! fst e) (tr ! s))"
  let ?done = "map ?rowf (filter ?keep [0..<m])"
  let ?ntr = "?done @ replicate (?N - new_index ?keep m) []"
  from Suc have m: "m < n" and IH: "for_each (\<lambda>s ntr.
         if used ! s then
           (if s < length tr then for_each (keep_edge used d s) (tr ! s) ntr
            else Inl IndexError)
         else Inr ntr) [0..<m] (replicate ?N []) = Inr ?ntr" by simp_all
  show ?case
  proof (cases "used ! m")
    case False
    then show ?thesis using IH by (simp add: for_each_append new_index_Suc)
  next
    case True
    have k: "new_index ?keep m < ?N" using m True by (intro new_index_less)
    have ld: "length ?done = new_index ?keep m" by (simp add: new_index_def)
    have dm: "d m = Some (new_index ?keep m)" using m True d by simp
    have "tr ! m \<in> set tr" using m tr by simp
    with range have r0: "\<forall>e \<in> set (tr ! m). fst e < n" by blast
    have r1: "\<forall>e \<in> set (tr ! m). fst e < length used"
      using r0 len by simp
    have r2: "\<forall>e \<in> set (tr ! m). used ! fst e \<longrightarrow> d (fst e) = Some (new_index ?keep (fst e))"
      using r0 d by simp
    have kl: "new_index ?keep m < length ?ntr" using k ld by simp
    have "for_each (keep_edge used d m) (tr ! m) ?ntr
        = Inr (?ntr[new_index ?keep m := ?ntr ! new_index ?keep m @ ?rowf m])"
      using keep_edges_result[OF dm r1 r2 kl] .
    also have "?ntr ! new_index ?keep m = []"
      using k ld by (simp add: nth_append)
    also have "?ntr[new_index ?keep m := [] @ ?rowf m]
        = (?done @ [?rowf m]) @ replicate (?N - new_index ?keep m - 1) []"
      using fill_next_row[of "?N - new_index ?keep m" ?done "?rowf m"] k ld by simp
    finally have "for_each (keep_edge used d m) (tr ! m) ?ntr
        = Inr ((?done @ [?rowf m]) @ replicate (?N - new_index ?keep m - 1) [])" .
    then show ?thesis using IH True m tr
      by (simp add: for_each_append new_index_Suc)
  qed
qed

lemma keep_acceptable_result:
  assumes "\<forall>s \<in> set xs. s < length used"
    and "\<forall>s \<in> set xs. used ! s \<longrightarrow> d s = Some (f s)"
  shows "for_each (keep_acceptable used d) xs acc = Inr (acc @ map f (filter (\<lambda>s. used ! s) xs))"
  using assms
  by (induction xs arbitrary: acc) (simp_all add: keep_acceptable_def lookup_def)

lemma bfs_invariant_start:
  assumes "wf_dfsm D"
  shows "bfs_invariant D ((replicate (dfsm_number_states D) False)[initial_state D := True])
           [initial_state D]"
proof -
  let ?n = "dfsm_number_states D" and ?i = "initial_state D"
  have i: "?i < ?n" using assms by (simp add: wf_dfsm_def)
  have only: "((replicate ?n False)[?i := True]) ! s \<longleftrightarrow> s = ?i" if "s < ?n" for s
    using that i by (simp add: nth_list_update)
  have "reachable D ?i" by (simp add: reachable_def)
  then show ?thesis
    unfolding bfs_invariant_def using i only by auto
qed

lemma bfs_marks_reachable:
  assumes "wf_dfsm D"
  shows "\<exists>used. bfs_loop (dfsm_transitions_between_states D)
             ((replicate (dfsm_number_states D) False)[initial_state D := True])
             [initial_state D] = Inr used
          \<and> length used = dfsm_number_states D
          \<and> (\<forall>s < dfsm_number_states D. used ! s \<longleftrightarrow> reachable D s)"
  using bfs_loop_correct[OF assms refl bfs_invariant_start[OF assms]] .

lemma new_index_cong:
  "(\<And>t. t < s \<Longrightarrow> keep t = keep' t) \<Longrightarrow> new_index keep s = new_index keep' s"
  unfolding new_index_def by (rule arg_cong[where f = length], rule filter_cong) auto

lemma eliminate_result:
  assumes wf: "wf_dfsm D"
  shows "eliminate_unreachable_states D =
     Inr \<lparr>alphabet = alphabet D,
          dfsm_number_states = new_index (reachable D) (dfsm_number_states D),
          dfsm_transitions_between_states =
            map (\<lambda>s. map (\<lambda>edge. (new_index (reachable D) (fst edge), snd edge))
                       (filter (\<lambda>edge. reachable D (fst edge))
                          (dfsm_transitions_between_states D ! s)))
              (filter (reachable D) [0..<dfsm_number_states D]),
          initial_state = new_index (reachable D) (initial_state D),
          dfsm_acceptable_states =
            map (new_index (reachable D)) (filter (reachable D) (dfsm_acceptable_states D))\<rparr>"
proof -
  let ?n = "dfsm_number_states D" and ?i = "initial_state D"
  let ?tr = "dfsm_transitions_between_states D"
  let ?R = "reachable D"
  from bfs_marks_reachable[OF wf] obtain used where
    bfs: "bfs_loop ?tr ((replicate ?n False)[?i := True]) [?i] = Inr used"
    and len: "length used = ?n"
    and used: "\<forall>s < ?n. used ! s \<longleftrightarrow> ?R s" by blast
  let ?keep = "\<lambda>t. used ! t"
  let ?d = "\<lambda>s. if s < ?n \<and> used ! s then Some (new_index ?keep s) else None"
  have i: "?i < ?n" and tr: "length ?tr = ?n"
    and range: "\<forall>row \<in> set ?tr. \<forall>e \<in> set row. fst e < ?n"
    and acc: "\<forall>s \<in> set (dfsm_acceptable_states D). s < ?n"
    using wf by (simp_all add: wf_dfsm_def)
  have idx: "new_index ?keep s = new_index ?R s" if "s \<le> ?n" for s
    using that used by (intro new_index_cong) simp
  have numbers: "used_numbers used ?n = (?d, new_index ?R ?n)"
    by (simp add: used_numbers_eq idx)
  have rows0: "for_each (\<lambda>s ntr.
         if used ! s then
           (if s < length ?tr then for_each (keep_edge used ?d s) (?tr ! s) ntr
            else Inl IndexError)
         else Inr ntr)
       [0..<?n] (replicate (new_index ?keep ?n) [])
     = Inr (map (\<lambda>s. map (\<lambda>e. (new_index ?keep (fst e), snd e))
                        (filter (\<lambda>e. used ! fst e) (?tr ! s)))
              (filter ?keep [0..<?n])
            @ replicate (new_index ?keep ?n - new_index ?keep ?n) [])"
    by (rule keep_rows_result[OF len tr range refl]) simp
  have row_eq: "map (\<lambda>e. (new_index ?keep (fst e), snd e)) (filter (\<lambda>e. used ! fst e) (?tr ! s))
      = map (\<lambda>e. (new_index ?R (fst e), snd e)) (filter (\<lambda>e. ?R (fst e)) (?tr ! s))"
    if "s < ?n" for s
  proof -
    have "?tr ! s \<in> set ?tr" using that tr by simp
    with range have r: "\<forall>e \<in> set (?tr ! s). fst e < ?n" by blast
    have "filter (\<lambda>e. used ! fst e) (?tr ! s) = filter (\<lambda>e. ?R (fst e)) (?tr ! s)"
      using r used by (intro filter_cong) auto
    moreover have "map (\<lambda>e. (new_index ?keep (fst e), snd e)) (filter (\<lambda>e. ?R (fst e)) (?tr ! s))
        = map (\<lambda>e. (new_index ?R (fst e), snd e)) (filter (\<lambda>e. ?R (fst e)) (?tr ! s))"
      using r idx by (intro map_cong) auto
    ultimately show ?thesis by simp
  qed
  have states_eq: "filter ?keep [0..<?n] = filter ?R [0..<?n]"
    using used by (intro filter_cong) auto
  have rows: "for_each (\<lambda>s ntr.
         if used ! s then
           (if s < length ?tr then for_each (keep_edge used ?d s) (?tr ! s) ntr
            else Inl IndexError)
         else Inr ntr)
       [0..<?n] (replicate (new_index ?R ?n) [])
     = Inr (map (\<lambda>s. map (\<lambda>e. (new_index ?R (fst e), snd e))
                        (filter (\<lambda>e. ?R (fst e)) (?tr ! s)))
              (filter ?R [0..<?n]))"
  proof -
    have "map (\<lambda>s. map (\<lambda>e. (new_index ?keep (fst e), snd e))
                        (filter (\<lambda>e. used ! fst e) (?tr ! s))) (filter ?R [0..<?n])
        = map (\<lambda>s. map (\<lambda>e. (new_index ?R (fst e), snd e))
                        (filter (\<lambda>e. ?R (fst e)) (?tr ! s))) (filter ?R [0..<?n])"
    proof (rule map_cong[OF refl])
      fix s assume "s \<in> set (filter ?R [0..<?n])"
      then have "s < ?n" by simp
      then show "map (\<lambda>e. (new_index ?keep (fst e), snd e))
                        (filter (\<lambda>e. used ! fst e) (?tr ! s))
          = map (\<lambda>e. (new_index ?R (fst e), snd e))
                        (filter (\<lambda>e. ?R (fst e)) (?tr ! s))"
        by (rule row_eq)
    qed
    with rows0 show ?thesis by (simp add: idx states_eq)
  qed
  have init: "lookup ?d ?i = Inr (new_index ?R ?i)"
    using i used idx[of ?i] by (simp add: lookup_def reachable_def)
  have "for_each (keep_acceptable used ?d) (dfsm_acceptable_states D) []
      = Inr ([] @ map (new_index ?keep) (filter ?keep (dfsm_acceptable_states D)))"
    using acc len by (intro keep_acceptable_result) auto
  moreover have "filter ?keep (dfsm_acceptable_states D) = filter ?R (dfsm_acceptable_states D)"
    using acc used by (intro filter_cong) auto
  moreover have "map (new_index ?keep) (filter ?R (dfsm_acceptable_states D))
      = map (new_index ?R) (filter ?R (dfsm_acceptable_states D))"
    using acc idx by (intro map_cong) auto
  ultimately have accs: "for_each (keep_acceptable used ?d) (dfsm_acceptable_states D) []
      = Inr (map (new_index ?R) (filter ?R (dfsm_acceptable_states D)))" by simp
  show ?thesis
    unfolding eliminate_unreachable_states_def Let_def
    using i by (simp add: bfs numbers rows init accs del: bfs_loop.simps)
qed

lemma eliminate_test:
  "eliminate_unreachable_states dfsm_test =
     Inr \<lparr>alphabet = [CHR ''a'', CHR ''b'', CHR ''c''],
          dfsm_number_states = 4,
          dfsm_transitions_between_states =
            [[(1, CHR ''a''), (2, CHR ''b'')], [(3, CHR ''c'')], [(3, CHR ''c'')], []],
          initial_state = 0,
          dfsm_acceptable_states = [3]\<rparr>"
  by code_simp

lemma wf_dfsm_test: "wf_dfsm dfsm_test"
  by (simp add: wf_dfsm_def dfsm_test_def)

lemma reachable_test:
  "reachable dfsm_test 0 \<and> reachable dfsm_test 1 \<and> \<not> reachable dfsm_test 2
   \<and> reachable dfsm_test 3 \<and> reachable dfsm_test 4"
proof -
  have "bfs_loop (dfsm_transitions_between_states dfsm_test)
          ((replicate (dfsm_number_states dfsm_test) False)[initial_state dfsm_test := True])
          [initial_state dfsm_test] = Inr [True, True, False, True, True]"
    by code_simp
  with bfs_marks_reachable[OF wf_dfsm_test]
  have "\<forall>s < dfsm_number_states dfsm_test. [True, True, False, True, True] ! s \<longleftrightarrow> reachable dfsm_test s"
    by simp
  then have "\<forall>s < 5. [True, True, False, True, True] ! s \<longleftrightarrow> reachable dfsm_test s"
    by (simp add: dfsm_test_def)
  then have r: "[True, True, False, True, True] ! s \<longleftrightarrow> reachable dfsm_test s"
    if "s < 5" for s using that by blast
  from r[of 0] r[of 1] r[of 2] r[of 3] r[of 4] show ?thesis by simp
qed

text \<open>
  Claim C7. \<open>eliminate_unreachable_states\<close> removes exactly the states that cannot be
  reached from the initial state, numbers the others in ascending order of their old
  numbers, keeps the edges between reachable states, and renumbers the initial state and
  the reachable acceptable states. On the machine of the test, state 2 is removed, four
  states remain and the acceptable state 4 becomes state 3.

  The first part holds for every machine whose states are in range (\<open>wf_dfsm\<close>); the
  result is given in full, with \<open>new_index (reachable D)\<close> as the renumbering.
\<close>

theorem eliminate_unreachable_states_prunes:
  "(wf_dfsm D \<longrightarrow>
      eliminate_unreachable_states D =
        Inr \<lparr>alphabet = alphabet D,
             dfsm_number_states = new_index (reachable D) (dfsm_number_states D),
             dfsm_transitions_between_states =
               map (\<lambda>s. map (\<lambda>edge. (new_index (reachable D) (fst edge), snd edge))
                          (filter (\<lambda>edge. reachable D (fst edge))
                             (dfsm_transitions_between_states D ! s)))
                 (filter (reachable D) [0..<dfsm_number_states D]),
             initial_state = new_index (reachable D) (initial_state D),
             dfsm_acceptable_states =
               map (new_index (reachable D))
                 (filter (reachable D) (dfsm_acceptable_states D))\<rparr>)
   \<and> eliminate_unreachable_states dfsm_test =
        Inr \<lparr>alphabet = [CHR ''a'', CHR ''b'', CHR ''c''],
             dfsm_number_states = 4,
             dfsm_transitions_between_states =
               [[(1, CHR ''a''), (2, CHR ''b'')], [(3, CHR ''c'')], [(3, CHR ''c'')], []],
             initial_state = 0,
             dfsm_acceptable_states = [3]\<rparr>
   \<and> \<not> reachable dfsm_test 2
   \<and> filter (reachable dfsm_test) [0..<5] = [0, 1, 3, 4]
   \<and> new_index (reachable dfsm_test) 4 = 3"
proof -
  have five: "[0..<5] = [0, 1, 2, 3, 4::nat]" by code_simp
  have four: "[0..<4] = [0, 1, 2, 3::nat]" by code_simp
  have "filter (reachable dfsm_test) [0..<5] = [0, 1, 3, 4]"
    unfolding five using reachable_test by simp
  moreover have "new_index (reachable dfsm_test) 4 = 3"
    unfolding new_index_def four using reachable_test by simp
  ultimately show ?thesis
    using eliminate_result[of D] eliminate_test reachable_test by blast
qed

theorem eliminate_unreachable_states_prunes_witness:
  "wf_dfsm dfsm_test
   \<and> new_index (reachable dfsm_test) (dfsm_number_states dfsm_test) = 4
   \<and> new_index (reachable dfsm_test) (initial_state dfsm_test) = 0
   \<and> map (new_index (reachable dfsm_test))
        (filter (reachable dfsm_test) (dfsm_acceptable_states dfsm_test)) = [3]"
proof -
  let ?R = "reachable dfsm_test"
  let ?G = "\<lparr>alphabet = alphabet dfsm_test,
             dfsm_number_states = new_index ?R (dfsm_number_states dfsm_test),
             dfsm_transitions_between_states =
               map (\<lambda>s. map (\<lambda>edge. (new_index ?R (fst edge), snd edge))
                          (filter (\<lambda>edge. ?R (fst edge))
                             (dfsm_transitions_between_states dfsm_test ! s)))
                 (filter ?R [0..<dfsm_number_states dfsm_test]),
             initial_state = new_index ?R (initial_state dfsm_test),
             dfsm_acceptable_states =
               map (new_index ?R) (filter ?R (dfsm_acceptable_states dfsm_test))\<rparr>"
  let ?C = "\<lparr>alphabet = [CHR ''a'', CHR ''b'', CHR ''c''],
             dfsm_number_states = 4,
             dfsm_transitions_between_states =
               [[(1, CHR ''a''), (2, CHR ''b'')], [(3, CHR ''c'')], [(3, CHR ''c'')], []],
             initial_state = 0,
             dfsm_acceptable_states = [3]\<rparr>"
  have general: "eliminate_unreachable_states dfsm_test = Inr ?G"
    using eliminate_unreachable_states_prunes[of dfsm_test] wf_dfsm_test by blast
  have scenario: "eliminate_unreachable_states dfsm_test = Inr ?C"
    using eliminate_unreachable_states_prunes[of dfsm_test] by blast
  from general scenario have eq: "?G = ?C" by simp
  from arg_cong[OF eq, of dfsm_number_states] arg_cong[OF eq, of initial_state]
    arg_cong[OF eq, of dfsm_acceptable_states] wf_dfsm_test
  show ?thesis by simp
qed

end
